theory Spec2Isabelle
  imports Main "HOL-Library.Word" "HOL-Library.Monad_Syntax"
begin

section \<open>Package obj: runtime values\<close>

text \<open>
  The package \<open>obj\<close> is imported by \<open>ast/times.go\<close> but its declarations are not part of
  the sources at hand. Its types are laid out as the specification's value model gives
  them; what the formatting verbs and the float64 operators of the host compute is taken
  as a parameter (record \<open>runtime\<close>).
\<close>

type_synonym int64 = "64 word"

text \<open>A float64 is carried as its IEEE-754 binary64 bit pattern; its arithmetic is a parameter.\<close>

type_synonym float64 = "64 word"

datatype obj_Type =
    obj_INT | obj_FLOAT | obj_BOOL | obj_STRING | obj_NULL
  | obj_LIST | obj_FUNCTION | obj_RETURN | obj_ERROR

text \<open>
  Modelled from the spec: the declaration of \<open>obj.Object\<close> and of its implementations is
  missing. "Value (Object). A tagged sum: Integer(i64), Float(f64), Boolean(bool),
  String(text), Null, List, Function, ReturnValue(inner Value), Error(message text)."
  A closure is kept as its parameter names and a reference to its body and environment.
\<close>

datatype Object =
    obj_Integer int64
  | obj_Float float64
  | obj_Boolean bool
  | obj_String string
  | obj_Null
  | obj_List "Object list"
  | obj_Function "string list" nat
  | obj_ReturnValue Object
  | obj_Error string

text \<open>Modelled from the spec: "Values carry a runtime kind() discriminator used for dispatch."\<close>

fun Type :: "Object \<Rightarrow> obj_Type" where
  "Type (obj_Integer i) = obj_INT"
| "Type (obj_Float f) = obj_FLOAT"
| "Type (obj_Boolean b) = obj_BOOL"
| "Type (obj_String s) = obj_STRING"
| "Type obj_Null = obj_NULL"
| "Type (obj_List xs) = obj_LIST"
| "Type (obj_Function ps b) = obj_FUNCTION"
| "Type (obj_ReturnValue v) = obj_RETURN"
| "Type (obj_Error m) = obj_ERROR"

text \<open>
  What the host computes and is not in the sources: the product and the order of two
  float64 values, and the text that the verb \<open>%v\<close> of \<open>fmt\<close> gives for an Object and for
  an \<open>obj.Type\<close>.
\<close>

record runtime =
  float64_mul :: "float64 \<Rightarrow> float64 \<Rightarrow> float64"
  float64_less :: "float64 \<Rightarrow> float64 \<Rightarrow> bool"
  fmt_Object :: "Object \<Rightarrow> string"
  fmt_Type :: "obj_Type \<Rightarrow> string"

text \<open>Modelled from the spec: \<open>obj.NewError\<close> builds "Error(message text)" from the formatted message.\<close>

definition obj_NewError :: "string \<Rightarrow> Object" where
  "obj_NewError msg = obj_Error msg"

definition obj_NewInteger :: "int64 \<Rightarrow> Object" where
  "obj_NewInteger i = obj_Integer i"

definition obj_NewFloat :: "float64 \<Rightarrow> Object" where
  "obj_NewFloat f = obj_Float f"

text \<open>Modelled from the spec: \<open>obj.ParseBool\<close> gives the Boolean value of a host bool ("result Boolean").\<close>

definition obj_ParseBool :: "bool \<Rightarrow> Object" where
  "obj_ParseBool b = obj_Boolean b"

section \<open>Package ast: the nodes Times and Less\<close>

text \<open>
  \<open>ast.Node\<close> is an interface with the methods \<open>Eval\<close> and \<open>String\<close>. The sources hold
  two of its implementations, \<open>Times\<close> and \<open>Less\<close>; any other implementation is a node
  \<open>Extern eval str\<close> given by what its two methods do. A field of interface type may be
  nil, hence the \<open>option\<close>.

  \<open>Eval\<close> receives a pointer to the environment, which a node may update: the environment
  is passed in and returned. A call that panics (a method call on a nil interface, a node
  of another kind that panics) yields \<open>None\<close>.
\<close>

datatype 'e Node =
    Times "'e Node option" "'e Node option"
  | Less "'e Node option" "'e Node option"
  | Extern "'e \<Rightarrow> (Object \<times> 'e) option" string

definition NewTimes :: "'e Node option \<Rightarrow> 'e Node option \<Rightarrow> 'e Node" where
  "NewTimes l r = Times l r"

definition NewLess :: "'e Node option \<Rightarrow> 'e Node option \<Rightarrow> 'e Node" where
  "NewLess l r = Less l r"

text \<open>Modelled from the spec: the helper \<open>isError\<close> of package ast is missing; an Error is the value of kind ERROR.\<close>

definition isError :: "Object \<Rightarrow> bool" where
  "isError v = (Type v = obj_ERROR)"

text \<open>Lines 21 to 48 of \<open>Times.Eval\<close>: what is returned once both operands have been evaluated.\<close>

definition Times_apply :: "runtime \<Rightarrow> Object \<Rightarrow> Object \<Rightarrow> Object" where
  "Times_apply rt left right =
    (if isError left then left
     else if isError right then right
     else if Type left \<noteq> Type right then
       obj_NewError (''invalid operation '' @ fmt_Object rt left @ '' * '' @ fmt_Object rt right
          @ '' (mismatched types '' @ fmt_Type rt (Type left) @ '' and ''
          @ fmt_Type rt (Type right) @ '')'')
     else (case (left, right) of
         (obj_Integer l, obj_Integer r) \<Rightarrow> obj_NewInteger (l * r)
       | (obj_Float l, obj_Float r) \<Rightarrow> obj_NewFloat (float64_mul rt l r)
       | _ \<Rightarrow> obj_NewError (''unsupported operator '*' for type '' @ fmt_Type rt (Type left))))"

text \<open>Lines 74 to 101 of \<open>Less.Eval\<close>.\<close>

definition Less_apply :: "runtime \<Rightarrow> Object \<Rightarrow> Object \<Rightarrow> Object" where
  "Less_apply rt left right =
    (if isError left then left
     else if isError right then right
     else if Type left \<noteq> Type right then
       obj_NewError (''invalid operation '' @ fmt_Object rt left @ '' < '' @ fmt_Object rt right
          @ '' (mismatched types '' @ fmt_Type rt (Type left) @ '' and ''
          @ fmt_Type rt (Type right) @ '')'')
     else (case (left, right) of
         (obj_Integer l, obj_Integer r) \<Rightarrow> obj_ParseBool (l <s r)
       | (obj_Float l, obj_Float r) \<Rightarrow> obj_ParseBool (float64_less rt l r)
       | _ \<Rightarrow> obj_NewError (''unsupported operator '<' for type '' @ fmt_Type rt (Type left))))"

text \<open>
  \<open>Eval\<close>: both operands are evaluated first, the left one before the right one (lines
  18, 19 and 71, 72), each in the environment the previous call left behind; only then
  are the results inspected.
\<close>

fun Eval :: "runtime \<Rightarrow> 'e Node \<Rightarrow> 'e \<Rightarrow> (Object \<times> 'e) option" where
  "Eval rt (Times (Some l) (Some r)) env =
    (case Eval rt l env of
       None \<Rightarrow> None
     | Some (left, env1) \<Rightarrow>
        (case Eval rt r env1 of
           None \<Rightarrow> None
         | Some (right, env2) \<Rightarrow> Some (Times_apply rt left right, env2)))"
| "Eval rt (Times (Some l) None) env = None"
| "Eval rt (Times None r) env = None"
| "Eval rt (Less (Some l) (Some r)) env =
    (case Eval rt l env of
       None \<Rightarrow> None
     | Some (left, env1) \<Rightarrow>
        (case Eval rt r env1 of
           None \<Rightarrow> None
         | Some (right, env2) \<Rightarrow> Some (Less_apply rt left right, env2)))"
| "Eval rt (Less (Some l) None) env = None"
| "Eval rt (Less None r) env = None"
| "Eval rt (Extern eval str) env = eval env"

text \<open>
  \<open>String\<close>: \<open>fmt.Sprintf\<close> with the verb \<open>%v\<close> prints a node by its own \<open>String\<close> method
  and a nil interface as \<open><nil>\<close>.
\<close>

fun String :: "'e Node \<Rightarrow> string" where
  "String (Times l r) =
     ''('' @ (case l of None \<Rightarrow> ''<nil>'' | Some a \<Rightarrow> String a) @ '' * ''
       @ (case r of None \<Rightarrow> ''<nil>'' | Some b \<Rightarrow> String b) @ '')''"
| "String (Less l r) =
     ''('' @ (case l of None \<Rightarrow> ''<nil>'' | Some a \<Rightarrow> String a) @ '' < ''
       @ (case r of None \<Rightarrow> ''<nil>'' | Some b \<Rightarrow> String b) @ '')''"
| "String (Extern eval str) = str"


text \<open>
  Modelled from the spec: three nodes of other kinds, over an environment of one scope,
  used where a theorem is evaluated at a concrete tree. "Literals evaluate to the
  corresponding Value." "Identifier: looks up in the environment; missing name yields
  Error("identifier not found: N")." "Assignment: for Identifier, creates a new binding in
  the innermost scope; the resulting value of the assignment expression is the assigned
  value" (here with a literal on the right).
\<close>

type_synonym Env = "(string \<times> Object) list"

definition Literal :: "Object \<Rightarrow> string \<Rightarrow> Env Node" where
  "Literal v str = Extern (\<lambda>env. Some (v, env)) str"

definition Identifier :: "string \<Rightarrow> Env Node" where
  "Identifier name = Extern (\<lambda>env. case map_of env name of
       None \<Rightarrow> Some (obj_Error (''identifier not found: '' @ name), env)
     | Some v \<Rightarrow> Some (v, env)) name"

definition Assign_Literal :: "string \<Rightarrow> Object \<Rightarrow> string \<Rightarrow> Env Node" where
  "Assign_Literal name v str = Extern (\<lambda>env. Some (v, (name, v) # env)) str"

text \<open>A sample host for those evaluations; no theorem about every runtime depends on it.\<close>

definition sample_runtime :: runtime where
  "sample_runtime = \<lparr> float64_mul = (\<lambda>a b. 0), float64_less = (\<lambda>a b. False),
      fmt_Object = (\<lambda>v. ''obj''), fmt_Type = (\<lambda>t. ''type'') \<rparr>"

section \<open>Package item: tokens\<close>

text \<open>
  Modelled from the spec: the package \<open>item\<close> is missing. A token carries a kind and its
  text; the kinds are those \<open>parser.go\<close> names, which are the kinds the specification
  lists: identifier, the three literals, six keywords, eight punctuators, nineteen
  operators and EOF.
\<close>

datatype item_Type =
    item_EOF | item_IDENT | item_INT | item_FLOAT | item_STRING
  | item_ASSIGN | item_PLUS | item_MINUS | item_BANG | item_ASTERISK | item_SLASH | item_POWER
  | item_LT | item_GT | item_EQ | item_NOT_EQ | item_LT_EQ | item_GT_EQ | item_AND | item_OR
  | item_PLUS_ASSIGN | item_MINUS_ASSIGN | item_ASTERISK_ASSIGN | item_SLASH_ASSIGN
  | item_COMMA | item_SEMICOLON | item_LPAREN | item_RPAREN | item_LBRACE | item_RBRACE
  | item_LBRACKET | item_RBRACKET
  | item_FUNCTION | item_IF | item_ELSE | item_TRUE | item_FALSE | item_RETURN

record Item =
  Typ :: item_Type
  Val :: string

definition Is :: "Item \<Rightarrow> item_Type \<Rightarrow> bool" where
  "Is i t = (Typ i = t)"

section \<open>The syntax tree the parser builds\<close>

text \<open>
  The parser builds its result with the constructor functions of package ast and never
  looks into a node, so its result is the term of those calls. A slot of type
  \<open>ast.Node\<close> may hold nil (\<open>None\<close>); a slice may be nil too (\<open>None\<close>), which is what Go's
  \<open>var list []T\<close> is until something is appended. A Block holds the statements added to
  it, none of them nil.
\<close>

datatype ast_Node =
    ast_NewIdentifier string
  | ast_NewInteger int64
  | ast_NewFloat float64
  | ast_NewString string
  | ast_NewBoolean bool
  | ast_NewPrefixMinus "ast_Node option"
  | ast_NewBang "ast_Node option"
  | ast_NewPlus "ast_Node option" "ast_Node option"
  | ast_NewMinus "ast_Node option" "ast_Node option"
  | ast_NewTimes "ast_Node option" "ast_Node option"
  | ast_NewDivide "ast_Node option" "ast_Node option"
  | ast_NewEquals "ast_Node option" "ast_Node option"
  | ast_NewNotEquals "ast_Node option" "ast_Node option"
  | ast_NewLess "ast_Node option" "ast_Node option"
  | ast_NewGreater "ast_Node option" "ast_Node option"
  | ast_NewLessEq "ast_Node option" "ast_Node option"
  | ast_NewGreaterEq "ast_Node option" "ast_Node option"
  | ast_NewAnd "ast_Node option" "ast_Node option"
  | ast_NewOr "ast_Node option" "ast_Node option"
  | ast_NewAssign "ast_Node option" "ast_Node option"
  | ast_NewPlusAssign "ast_Node option" "ast_Node option"
  | ast_NewMinusAssign "ast_Node option" "ast_Node option"
  | ast_NewDivideAssign "ast_Node option" "ast_Node option"
  | ast_NewTimesAssign "ast_Node option" "ast_Node option"
  | ast_NewIfExpr "ast_Node option" "ast_Node option" "ast_Node option"
  | ast_NewFunction "string list option" "ast_Node option"
  | ast_NewCall "ast_Node option" "ast_Node option list option"
  | ast_NewList "ast_Node option list option"
  | ast_NewIndex "ast_Node option" "ast_Node option"
  | ast_NewReturn "ast_Node option"
  | ast_Block "ast_Node list"

section \<open>Package parser\<close>

text \<open>
  What the parser takes from Go's standard library: the text that the verbs \<open>%v\<close> and
  \<open>%s\<close> of \<open>fmt\<close> give for an \<open>item.Type\<close>, the quoting of the verb \<open>%q\<close>, and
  \<open>strconv.ParseInt\<close> (base 0, 64 bits) and \<open>strconv.ParseFloat\<close> (64 bits), which
  return a value or an error.
\<close>

record stdlib =
  fmt_v :: "item_Type \<Rightarrow> string"
  fmt_s :: "item_Type \<Rightarrow> string"
  fmt_q :: "string \<Rightarrow> string"
  strconv_ParseInt :: "string \<Rightarrow> int64 option"
  strconv_ParseFloat :: "string \<Rightarrow> float64 option"

text \<open>
  The parser. Its two tables are filled once by \<open>newParser\<close> and never change; they are
  the functions \<open>prefixParsers\<close> and \<open>infixParsers\<close> below. The field \<open>items\<close> holds
  what the lexer has still to deliver.
\<close>

record Parser =
  cur :: Item
  peek :: Item
  items :: "Item list"
  errs :: "string list"

text \<open>Operators' precedence classes (\<open>SUM\<close> is written \<open>SUM_class\<close>).\<close>

definition LOWEST :: int where "LOWEST = 0"
definition ASSIGNMENT :: int where "ASSIGNMENT = 1"
definition EQUALS :: int where "EQUALS = 2"
definition LESSGREATER :: int where "LESSGREATER = 3"
definition SUM_class :: int where "SUM_class = 4"
definition PRODUCT :: int where "PRODUCT = 5"
definition PREFIX :: int where "PREFIX = 6"
definition CALL :: int where "CALL = 7"
definition INDEX :: int where "INDEX = 8"

text \<open>Links each operator to its precedence class.\<close>

definition precedences :: "item_Type \<rightharpoonup> int" where
  "precedences = map_of [
     (item_EQ, EQUALS),
     (item_NOT_EQ, EQUALS),
     (item_LT, LESSGREATER),
     (item_GT, LESSGREATER),
     (item_LT_EQ, LESSGREATER),
     (item_GT_EQ, LESSGREATER),
     (item_PLUS, SUM_class),
     (item_MINUS, SUM_class),
     (item_OR, SUM_class),
     (item_SLASH, PRODUCT),
     (item_ASTERISK, PRODUCT),
     (item_POWER, PRODUCT),
     (item_AND, PRODUCT),
     (item_LPAREN, CALL),
     (item_LBRACKET, INDEX),
     (item_ASSIGN, ASSIGNMENT),
     (item_PLUS_ASSIGN, ASSIGNMENT),
     (item_MINUS_ASSIGN, ASSIGNMENT),
     (item_SLASH_ASSIGN, ASSIGNMENT),
     (item_ASTERISK_ASSIGN, ASSIGNMENT)]"

text \<open>
  Modelled from the spec: the lexer and the channel it feeds are missing. "Token stream: a
  lazy, finite, single-pass sequence of tokens terminated by an EOF sentinel"; "at least
  one token (possibly EOF) is always available". A receive takes the next token; once
  the lexer has delivered all of its tokens, a receive yields the EOF token with no text.
\<close>

definition recv :: "Item list \<Rightarrow> Item \<times> Item list" where
  "recv ch = (case ch of [] \<Rightarrow> (\<lparr>Typ = item_EOF, Val = []\<rparr>, []) | i # rest \<Rightarrow> (i, rest))"

definition "next" :: "Parser \<Rightarrow> Parser" where
  "next p = (let (i, rest) = recv (items p) in p\<lparr>cur := peek p, peek := i, items := rest\<rparr>)"

definition errors :: "Parser \<Rightarrow> string list" where
  "errors p = errs p"

type_synonym 'a parsing = "Parser \<Rightarrow> ('a \<times> Parser) option"

definition peekError :: "stdlib \<Rightarrow> item_Type \<Rightarrow> Parser \<Rightarrow> Parser" where
  "peekError lib t p = p\<lparr>errs := errs p @
     [''expected next item to be '' @ fmt_v lib t @ '', got '' @ fmt_v lib (Typ (peek p)) @ '' instead'']\<rparr>"

definition expectPeek :: "stdlib \<Rightarrow> item_Type \<Rightarrow> Parser \<Rightarrow> bool \<times> Parser" where
  "expectPeek lib t p = (if Is (peek p) t then (True, next p) else (False, peekError lib t p))"

definition peekPrecedence :: "Parser \<Rightarrow> int" where
  "peekPrecedence p = (case precedences (Typ (peek p)) of Some prec \<Rightarrow> prec | None \<Rightarrow> LOWEST)"

definition precedence :: "Parser \<Rightarrow> int" where
  "precedence p = (case precedences (Typ (cur p)) of Some prec \<Rightarrow> prec | None \<Rightarrow> LOWEST)"

definition noParsePrefixFnError :: "stdlib \<Rightarrow> item_Type \<Rightarrow> Parser \<Rightarrow> Parser" where
  "noParsePrefixFnError lib t p = p\<lparr>errs := errs p @
     [''no parse prefix function for '' @ [CHR 0x27] @ fmt_s lib t @ [CHR 0x27] @ '' found'']\<rparr>"


subsection \<open>Prefix parsers without a sub-expression\<close>

definition parseIdentifier :: "ast_Node option parsing" where
  "parseIdentifier p = Some (Some (ast_NewIdentifier (Val (cur p))), p)"

definition parseInteger :: "stdlib \<Rightarrow> ast_Node option parsing" where
  "parseInteger lib p =
    (case strconv_ParseInt lib (Val (cur p)) of
       None \<Rightarrow>
         Some (None, p\<lparr>errs := errs p @ [''unable to parse '' @ fmt_q lib (Val (cur p)) @ '' as integer'']\<rparr>)
     | Some i \<Rightarrow> Some (Some (ast_NewInteger i), p))"

definition parseFloat :: "stdlib \<Rightarrow> ast_Node option parsing" where
  "parseFloat lib p =
    (case strconv_ParseFloat lib (Val (cur p)) of
       None \<Rightarrow>
         Some (None, p\<lparr>errs := errs p @ [''unable to parse '' @ fmt_q lib (Val (cur p)) @ '' as float'']\<rparr>)
     | Some f \<Rightarrow> Some (Some (ast_NewFloat f), p))"

definition parseString :: "ast_Node option parsing" where
  "parseString p = Some (Some (ast_NewString (Val (cur p))), p)"

definition parseBoolean :: "ast_Node option parsing" where
  "parseBoolean p = Some (Some (ast_NewBoolean (Is (cur p) item_TRUE)), p)"

subsection \<open>Parsers that call parseExpr\<close>

text \<open>
  The parse functions call one another through \<open>parseExpr\<close>. Each of them is defined
  here over the function \<open>pe\<close> it calls for \<open>p.parseExpr\<close>; \<open>parseExpr\<close> itself closes the
  recursion below. A \<open>for\<close> loop is a recursive function that counts its iterations down
  from a bound \<open>n\<close>; running out of the bound is \<open>None\<close>, as is a call that does not return.
\<close>

type_synonym parseExprFn = "int \<Rightarrow> ast_Node option parsing"

definition parseReturn :: "parseExprFn \<Rightarrow> ast_Node option parsing" where
  "parseReturn pe p = do {
     (e, p1) \<leftarrow> pe LOWEST (next p);
     Some (Some (ast_NewReturn e), if Is (peek p1) item_SEMICOLON then next p1 else p1)
   }"

definition parseStatement :: "parseExprFn \<Rightarrow> ast_Node option parsing" where
  "parseStatement pe p = (if Is (cur p) item_RETURN then parseReturn pe p else pe LOWEST p)"

definition parseGroupedExpr :: "stdlib \<Rightarrow> parseExprFn \<Rightarrow> ast_Node option parsing" where
  "parseGroupedExpr lib pe p = do {
     (exp, p1) \<leftarrow> pe LOWEST (next p);
     (case expectPeek lib item_RPAREN p1 of
        (False, p2) \<Rightarrow> Some (None, p2)
      | (True, p2) \<Rightarrow> Some (exp, p2))
   }"

primrec parseBlock_loop :: "parseExprFn \<Rightarrow> nat \<Rightarrow> ast_Node list \<Rightarrow> ast_Node option parsing" where
  "parseBlock_loop pe 0 block p = None"
| "parseBlock_loop pe (Suc n) block p =
    (if \<not> Is (cur p) item_RBRACE \<and> \<not> Is (cur p) item_EOF then do {
       (s, p1) \<leftarrow> parseStatement pe p;
       parseBlock_loop pe n (case s of None \<Rightarrow> block | Some st \<Rightarrow> block @ [st]) (next p1)
     } else Some (Some (ast_Block block), p))"

definition parseBlock :: "parseExprFn \<Rightarrow> nat \<Rightarrow> ast_Node option parsing" where
  "parseBlock pe n p = parseBlock_loop pe n [] (next p)"

primrec parseIfExpr :: "stdlib \<Rightarrow> parseExprFn \<Rightarrow> nat \<Rightarrow> ast_Node option parsing" where
  "parseIfExpr lib pe 0 p = None"
| "parseIfExpr lib pe (Suc n) p = do {
     (cond, p1) \<leftarrow> pe LOWEST (next p);
     (case expectPeek lib item_LBRACE p1 of
        (False, p2) \<Rightarrow> Some (None, p2)
      | (True, p2) \<Rightarrow> do {
          (body, p3) \<leftarrow> parseBlock pe n p2;
          (if Is (peek p3) item_ELSE then
             (let p4 = next p3 in
              if Is (peek p4) item_IF then do {
                (alt, p5) \<leftarrow> parseIfExpr lib pe n (next p4);
                Some (Some (ast_NewIfExpr cond body alt), p5)
              } else
                (case expectPeek lib item_LBRACE p4 of
                   (False, p5) \<Rightarrow> Some (None, p5)
                 | (True, p5) \<Rightarrow> do {
                     (alt, p6) \<leftarrow> parseBlock pe n p5;
                     Some (Some (ast_NewIfExpr cond body alt), p6)
                   }))
           else Some (Some (ast_NewIfExpr cond body None), p3))
        })
   }"

primrec parseFunctionParams_loop :: "nat \<Rightarrow> string list \<Rightarrow> string list parsing" where
  "parseFunctionParams_loop 0 ret p = None"
| "parseFunctionParams_loop (Suc n) ret p =
    (if Is (peek p) item_COMMA then
       (let p1 = next (next p) in parseFunctionParams_loop n (ret @ [Val (cur p1)]) p1)
     else Some (ret, p))"

definition parseFunctionParams :: "stdlib \<Rightarrow> nat \<Rightarrow> string list option parsing" where
  "parseFunctionParams lib n p =
    (if Is (peek p) item_RPAREN then Some (None, next p)
     else
       (let p1 = next p in do {
          (ret, p2) \<leftarrow> parseFunctionParams_loop n [Val (cur p1)] p1;
          (case expectPeek lib item_RPAREN p2 of
             (False, p3) \<Rightarrow> Some (None, p3)
           | (True, p3) \<Rightarrow> Some (Some ret, p3))
        }))"

definition parseFunction :: "stdlib \<Rightarrow> parseExprFn \<Rightarrow> nat \<Rightarrow> ast_Node option parsing" where
  "parseFunction lib pe n p =
    (case expectPeek lib item_LPAREN p of
       (False, p1) \<Rightarrow> Some (None, p1)
     | (True, p1) \<Rightarrow> do {
         (params, p2) \<leftarrow> parseFunctionParams lib n p1;
         (case expectPeek lib item_LBRACE p2 of
            (False, p3) \<Rightarrow> Some (None, p3)
          | (True, p3) \<Rightarrow> do {
              (body, p4) \<leftarrow> parseBlock pe n p3;
              Some (Some (ast_NewFunction params body), p4)
            })
       })"

primrec parseNodeList_loop ::
  "parseExprFn \<Rightarrow> nat \<Rightarrow> ast_Node option list \<Rightarrow> ast_Node option list parsing" where
  "parseNodeList_loop pe 0 list p = None"
| "parseNodeList_loop pe (Suc n) list p =
    (if Is (peek p) item_COMMA then do {
       (e, p1) \<leftarrow> pe LOWEST (next (next p));
       parseNodeList_loop pe n (list @ [e]) p1
     } else Some (list, p))"

definition parseNodeList ::
  "stdlib \<Rightarrow> parseExprFn \<Rightarrow> nat \<Rightarrow> item_Type \<Rightarrow> ast_Node option list option parsing" where
  "parseNodeList lib pe n end p =
    (if Is (peek p) end then Some (None, next p)
     else do {
       (e, p1) \<leftarrow> pe LOWEST (next p);
       (list, p2) \<leftarrow> parseNodeList_loop pe n [e] p1;
       (case expectPeek lib end p2 of
          (False, p3) \<Rightarrow> Some (None, p3)
        | (True, p3) \<Rightarrow> Some (Some list, p3))
     })"

definition parseList :: "stdlib \<Rightarrow> parseExprFn \<Rightarrow> nat \<Rightarrow> ast_Node option parsing" where
  "parseList lib pe n p = do {
     (nodes, p1) \<leftarrow> parseNodeList lib pe n item_RBRACKET p;
     Some (Some (ast_NewList nodes), p1)
   }"

definition parsePrefixMinus :: "parseExprFn \<Rightarrow> ast_Node option parsing" where
  "parsePrefixMinus pe p = do {
     (e, p1) \<leftarrow> pe PREFIX (next p);
     Some (Some (ast_NewPrefixMinus e), p1)
   }"

definition parseBang :: "parseExprFn \<Rightarrow> ast_Node option parsing" where
  "parseBang pe p = do {
     (e, p1) \<leftarrow> pe PREFIX (next p);
     Some (Some (ast_NewBang e), p1)
   }"

subsection \<open>Infix parsers\<close>

type_synonym parseInfixFn = "ast_Node option \<Rightarrow> ast_Node option parsing"

text \<open>
  The seventeen parsers of the binary operators differ in the constructor they call and
  in nothing else; \<open>parseBinary\<close> is their common body.
\<close>

definition parseBinary ::
  "(ast_Node option \<Rightarrow> ast_Node option \<Rightarrow> ast_Node) \<Rightarrow> parseExprFn \<Rightarrow> parseInfixFn" where
  "parseBinary new pe left p =
    (let prec = precedence p; p1 = next p in do {
       (right, p2) \<leftarrow> pe prec p1;
       Some (Some (new left right), p2)
     })"

definition parsePlus :: "parseExprFn \<Rightarrow> parseInfixFn" where
  "parsePlus = parseBinary ast_NewPlus"

definition parseMinus :: "parseExprFn \<Rightarrow> parseInfixFn" where
  "parseMinus = parseBinary ast_NewMinus"

definition parseAsterisk :: "parseExprFn \<Rightarrow> parseInfixFn" where
  "parseAsterisk = parseBinary ast_NewTimes"

definition parseSlash :: "parseExprFn \<Rightarrow> parseInfixFn" where
  "parseSlash = parseBinary ast_NewDivide"

definition parseEquals :: "parseExprFn \<Rightarrow> parseInfixFn" where
  "parseEquals = parseBinary ast_NewEquals"

definition parseNotEquals :: "parseExprFn \<Rightarrow> parseInfixFn" where
  "parseNotEquals = parseBinary ast_NewNotEquals"

definition parseLess :: "parseExprFn \<Rightarrow> parseInfixFn" where
  "parseLess = parseBinary ast_NewLess"

definition parseGreater :: "parseExprFn \<Rightarrow> parseInfixFn" where
  "parseGreater = parseBinary ast_NewGreater"

definition parseLessEq :: "parseExprFn \<Rightarrow> parseInfixFn" where
  "parseLessEq = parseBinary ast_NewLessEq"

definition parseGreaterEq :: "parseExprFn \<Rightarrow> parseInfixFn" where
  "parseGreaterEq = parseBinary ast_NewGreaterEq"

definition parseAnd :: "parseExprFn \<Rightarrow> parseInfixFn" where
  "parseAnd = parseBinary ast_NewAnd"

definition parseOr :: "parseExprFn \<Rightarrow> parseInfixFn" where
  "parseOr = parseBinary ast_NewOr"

definition parseAssign :: "parseExprFn \<Rightarrow> parseInfixFn" where
  "parseAssign = parseBinary ast_NewAssign"

definition parsePlusAssign :: "parseExprFn \<Rightarrow> parseInfixFn" where
  "parsePlusAssign = parseBinary ast_NewPlusAssign"

definition parseMinusAssign :: "parseExprFn \<Rightarrow> parseInfixFn" where
  "parseMinusAssign = parseBinary ast_NewMinusAssign"

definition parseSlashAssign :: "parseExprFn \<Rightarrow> parseInfixFn" where
  "parseSlashAssign = parseBinary ast_NewDivideAssign"

definition parseAsteriskAssign :: "parseExprFn \<Rightarrow> parseInfixFn" where
  "parseAsteriskAssign = parseBinary ast_NewTimesAssign"

definition parseCall :: "stdlib \<Rightarrow> parseExprFn \<Rightarrow> nat \<Rightarrow> parseInfixFn" where
  "parseCall lib pe n fn p = do {
     (args, p1) \<leftarrow> parseNodeList lib pe n item_RPAREN p;
     Some (Some (ast_NewCall fn args), p1)
   }"

definition parseIndex :: "stdlib \<Rightarrow> parseExprFn \<Rightarrow> parseInfixFn" where
  "parseIndex lib pe list p = do {
     (expr, p1) \<leftarrow> pe LOWEST (next p);
     (case expectPeek lib item_RBRACKET p1 of
        (False, p2) \<Rightarrow> Some (None, p2)
      | (True, p2) \<Rightarrow> Some (Some (ast_NewIndex list expr), p2))
   }"

subsection \<open>The two tables of newParser and parseExpr\<close>

definition prefixParsers ::
  "stdlib \<Rightarrow> parseExprFn \<Rightarrow> nat \<Rightarrow> item_Type \<rightharpoonup> ast_Node option parsing" where
  "prefixParsers lib pe n = map_of [
     (item_IDENT, parseIdentifier),
     (item_INT, parseInteger lib),
     (item_FLOAT, parseFloat lib),
     (item_STRING, parseString),
     (item_MINUS, parsePrefixMinus pe),
     (item_BANG, parseBang pe),
     (item_TRUE, parseBoolean),
     (item_FALSE, parseBoolean),
     (item_LPAREN, parseGroupedExpr lib pe),
     (item_IF, parseIfExpr lib pe n),
     (item_FUNCTION, parseFunction lib pe n),
     (item_LBRACKET, parseList lib pe n)]"

definition infixParsers ::
  "stdlib \<Rightarrow> parseExprFn \<Rightarrow> nat \<Rightarrow> item_Type \<rightharpoonup> parseInfixFn" where
  "infixParsers lib pe n = map_of [
     (item_EQ, parseEquals pe),
     (item_NOT_EQ, parseNotEquals pe),
     (item_LT, parseLess pe),
     (item_GT, parseGreater pe),
     (item_LT_EQ, parseLessEq pe),
     (item_GT_EQ, parseGreaterEq pe),
     (item_AND, parseAnd pe),
     (item_OR, parseOr pe),
     (item_PLUS, parsePlus pe),
     (item_MINUS, parseMinus pe),
     (item_SLASH, parseSlash pe),
     (item_ASTERISK, parseAsterisk pe),
     (item_ASSIGN, parseAssign pe),
     (item_PLUS_ASSIGN, parsePlusAssign pe),
     (item_MINUS_ASSIGN, parseMinusAssign pe),
     (item_SLASH_ASSIGN, parseSlashAssign pe),
     (item_ASTERISK_ASSIGN, parseAsteriskAssign pe),
     (item_LPAREN, parseCall lib pe n),
     (item_LBRACKET, parseIndex lib pe)]"

primrec parseExpr_loop ::
  "stdlib \<Rightarrow> parseExprFn \<Rightarrow> nat \<Rightarrow> int \<Rightarrow> ast_Node option \<Rightarrow> ast_Node option parsing" where
  "parseExpr_loop lib pe 0 prec leftExp p = None"
| "parseExpr_loop lib pe (Suc n) prec leftExp p =
    (if \<not> Is (peek p) item_SEMICOLON \<and> prec < peekPrecedence p then
       (case infixParsers lib pe n (Typ (peek p)) of
          Some infixFn \<Rightarrow> do {
            (leftExp', p1) \<leftarrow> infixFn leftExp (next p);
            parseExpr_loop lib pe n prec leftExp' p1
          }
        | None \<Rightarrow> Some (leftExp, p))
     else Some (leftExp, p))"

primrec parseExpr :: "stdlib \<Rightarrow> nat \<Rightarrow> parseExprFn" where
  "parseExpr lib 0 prec p = None"
| "parseExpr lib (Suc n) prec p =
    (case prefixParsers lib (parseExpr lib n) n (Typ (cur p)) of
       Some prefixFn \<Rightarrow> do {
         (leftExp, p1) \<leftarrow> prefixFn p;
         (leftExp', p2) \<leftarrow> parseExpr_loop lib (parseExpr lib n) n prec leftExp p1;
         Some (leftExp', if Is (peek p2) item_SEMICOLON then next p2 else p2)
       }
     | None \<Rightarrow> Some (None, noParsePrefixFnError lib (Typ (cur p)) p))"

subsection \<open>The entry points\<close>

definition newParser :: "Item list \<Rightarrow> Parser" where
  "newParser ch =
    (let (c, ch1) = recv ch; (pk, ch2) = recv ch1
     in \<lparr>cur = c, peek = pk, items = ch2, errs = []\<rparr>)"

primrec parse_loop :: "stdlib \<Rightarrow> nat \<Rightarrow> nat \<Rightarrow> ast_Node list \<Rightarrow> ast_Node parsing" where
  "parse_loop lib m 0 block p = None"
| "parse_loop lib m (Suc n) block p =
    (if \<not> Is (cur p) item_EOF then do {
       (s, p1) \<leftarrow> parseStatement (parseExpr lib m) p;
       parse_loop lib m n (case s of None \<Rightarrow> block | Some st \<Rightarrow> block @ [st]) (next p1)
     } else Some (ast_Block block, p))"

definition parse :: "stdlib \<Rightarrow> nat \<Rightarrow> ast_Node parsing" where
  "parse lib n p = parse_loop lib n n [] p"

text \<open>\<open>Parse\<close> starts from the tokens \<open>lexer.Lex\<close> produces for the input.\<close>

definition Parse :: "stdlib \<Rightarrow> nat \<Rightarrow> Item list \<Rightarrow> (ast_Node \<times> string list) option" where
  "Parse lib n input = do {
     (prog, p) \<leftarrow> parse lib n (newParser input);
     Some (prog, errors p)
   }"

text \<open>
  The token kinds of the binary operators, each with the constructor its infix parser
  calls (the registrations of \<open>newParser\<close> other than those of \<open>(\<close> and \<open>[\<close>).
\<close>

definition binaryOperators ::
  "(item_Type \<times> (ast_Node option \<Rightarrow> ast_Node option \<Rightarrow> ast_Node)) list" where
  "binaryOperators = [
     (item_EQ, ast_NewEquals),
     (item_NOT_EQ, ast_NewNotEquals),
     (item_LT, ast_NewLess),
     (item_GT, ast_NewGreater),
     (item_LT_EQ, ast_NewLessEq),
     (item_GT_EQ, ast_NewGreaterEq),
     (item_AND, ast_NewAnd),
     (item_OR, ast_NewOr),
     (item_PLUS, ast_NewPlus),
     (item_MINUS, ast_NewMinus),
     (item_SLASH, ast_NewDivide),
     (item_ASTERISK, ast_NewTimes),
     (item_ASSIGN, ast_NewAssign),
     (item_PLUS_ASSIGN, ast_NewPlusAssign),
     (item_MINUS_ASSIGN, ast_NewMinusAssign),
     (item_SLASH_ASSIGN, ast_NewDivideAssign),
     (item_ASTERISK_ASSIGN, ast_NewTimesAssign)]"

text \<open>Sample tokens and a sample library, for evaluating the parser at concrete inputs.\<close>

definition tok :: "item_Type \<Rightarrow> Item" where
  "tok t = \<lparr>Typ = t, Val = []\<rparr>"

definition ident :: "string \<Rightarrow> Item" where
  "ident name = \<lparr>Typ = item_IDENT, Val = name\<rparr>"

definition sample_stdlib :: stdlib where
  "sample_stdlib = \<lparr> fmt_v = (\<lambda>t. ''tok''), fmt_s = (\<lambda>t. ''tok''), fmt_q = (\<lambda>s. s),
      strconv_ParseInt = (\<lambda>s. None), strconv_ParseFloat = (\<lambda>s. None) \<rparr>"

section \<open>Predicates of the theorems about the parser\<close>

text \<open>
  A tree is \<open>populated\<close> when no slot for a node holds nil, in the tree and below, and no
  element of an argument or element list is nil. Two slots may be nil in a populated
  tree: the else slot of an if expression, which is optional, and a list slot, which is
  nil when the list is empty.
\<close>

fun populated :: "ast_Node \<Rightarrow> bool" and filled :: "ast_Node option \<Rightarrow> bool" where
  "filled None = False"
| "filled (Some n) = populated n"
| "populated (ast_NewIdentifier s) = True"
| "populated (ast_NewInteger i) = True"
| "populated (ast_NewFloat f) = True"
| "populated (ast_NewString s) = True"
| "populated (ast_NewBoolean b) = True"
| "populated (ast_NewPrefixMinus x) = filled x"
| "populated (ast_NewBang x) = filled x"
| "populated (ast_NewPlus l r) = (filled l \<and> filled r)"
| "populated (ast_NewMinus l r) = (filled l \<and> filled r)"
| "populated (ast_NewTimes l r) = (filled l \<and> filled r)"
| "populated (ast_NewDivide l r) = (filled l \<and> filled r)"
| "populated (ast_NewEquals l r) = (filled l \<and> filled r)"
| "populated (ast_NewNotEquals l r) = (filled l \<and> filled r)"
| "populated (ast_NewLess l r) = (filled l \<and> filled r)"
| "populated (ast_NewGreater l r) = (filled l \<and> filled r)"
| "populated (ast_NewLessEq l r) = (filled l \<and> filled r)"
| "populated (ast_NewGreaterEq l r) = (filled l \<and> filled r)"
| "populated (ast_NewAnd l r) = (filled l \<and> filled r)"
| "populated (ast_NewOr l r) = (filled l \<and> filled r)"
| "populated (ast_NewAssign l r) = (filled l \<and> filled r)"
| "populated (ast_NewPlusAssign l r) = (filled l \<and> filled r)"
| "populated (ast_NewMinusAssign l r) = (filled l \<and> filled r)"
| "populated (ast_NewDivideAssign l r) = (filled l \<and> filled r)"
| "populated (ast_NewTimesAssign l r) = (filled l \<and> filled r)"
| "populated (ast_NewIfExpr c b a) = (filled c \<and> filled b \<and> (case a of None \<Rightarrow> True | Some n \<Rightarrow> populated n))"
| "populated (ast_NewFunction ps b) = filled b"
| "populated (ast_NewCall f args) = (filled f \<and> (case args of None \<Rightarrow> True | Some xs \<Rightarrow> list_all filled xs))"
| "populated (ast_NewList elems) = (case elems of None \<Rightarrow> True | Some xs \<Rightarrow> list_all filled xs)"
| "populated (ast_NewIndex l i) = (filled l \<and> filled i)"
| "populated (ast_NewReturn x) = filled x"
| "populated (ast_Block ss) = list_all populated ss"


definition filled_list :: "ast_Node option list option \<Rightarrow> bool" where
  "filled_list xs = (case xs of None \<Rightarrow> True | Some ys \<Rightarrow> list_all filled ys)"

text \<open>
  A parse function is \<open>reporting\<close> (for a property \<open>ok\<close> of its result) when it never
  removes an error and, whenever it returns with the error list as long as before, its
  result has the property.
\<close>

definition reporting :: "('a \<Rightarrow> bool) \<Rightarrow> 'a parsing \<Rightarrow> bool" where
  "reporting ok f =
    (\<forall>p r p'. f p = Some (r, p') \<longrightarrow>
       length (errs p) \<le> length (errs p') \<and> (length (errs p') = length (errs p) \<longrightarrow> ok r))"

definition reporting_expr :: "parseExprFn \<Rightarrow> bool" where
  "reporting_expr pe = (\<forall>prec. reporting filled (pe prec))"

text \<open>
  \<open>remaining\<close> counts the tokens up to the last one that is not EOF, over the current
  token, the peek token and what the lexer has still to deliver. A parse function
  \<open>returns\<close> at a state when it gives a result there and leaves no more tokens than it
  found.
\<close>

fun pending :: "Item list \<Rightarrow> nat" where
  "pending [] = 0"
| "pending (i # rest) = (if pending rest = 0 \<and> Typ i = item_EOF then 0 else Suc (pending rest))"

definition remaining :: "Parser \<Rightarrow> nat" where
  "remaining p = pending (cur p # peek p # items p)"

definition returns :: "'a parsing \<Rightarrow> Parser \<Rightarrow> bool" where
  "returns f p = (\<exists>r p'. f p = Some (r, p') \<and> remaining p' \<le> remaining p)"

definition total_below :: "nat \<Rightarrow> parseExprFn \<Rightarrow> bool" where
  "total_below m pe = (\<forall>prec p. remaining p < m \<longrightarrow> returns (pe prec) p)"

text \<open>
  \<open>extends f g\<close>: wherever \<open>f\<close> returns, \<open>g\<close> returns the same.
\<close>

definition extends :: "'a parsing \<Rightarrow> 'a parsing \<Rightarrow> bool" where
  "extends f g = (\<forall>p r. f p = Some r \<longrightarrow> g p = Some r)"

definition extends_expr :: "parseExprFn \<Rightarrow> parseExprFn \<Rightarrow> bool" where
  "extends_expr pe pe' = (\<forall>prec. extends (pe prec) (pe' prec))"

text \<open>
  The main loop as the specification words it: "until EOF, parse a statement, append to
  the root Block, advance. A statement is either a return (keyword-led) or an expression."
  \<open>spec_main_loop lib m p stmts p'\<close>: from the state \<open>p\<close>, the statements parsed one after
  the other up to the first current token EOF are \<open>stmts\<close>, in this order, and \<open>p'\<close> is the
  state reached there. A return statement is the Return node of the expression after the
  keyword, with a semicolon after it stepped over; an expression that parses to nil adds
  no statement. The number \<open>m\<close> is the bound given to \<open>parseExpr\<close>.
\<close>

inductive spec_main_loop :: "stdlib \<Rightarrow> nat \<Rightarrow> Parser \<Rightarrow> ast_Node list \<Rightarrow> Parser \<Rightarrow> bool"
  for lib :: stdlib and m :: nat where
  at_EOF:
    "Is (cur p) item_EOF \<Longrightarrow> spec_main_loop lib m p [] p"
| return_statement:
    "\<not> Is (cur p) item_EOF \<Longrightarrow> Is (cur p) item_RETURN \<Longrightarrow>
     parseExpr lib m LOWEST (next p) = Some (e, p1) \<Longrightarrow>
     p2 = (if Is (peek p1) item_SEMICOLON then next p1 else p1) \<Longrightarrow>
     spec_main_loop lib m (next p2) rest p' \<Longrightarrow>
     spec_main_loop lib m p (ast_NewReturn e # rest) p'"
| expression:
    "\<not> Is (cur p) item_EOF \<Longrightarrow> \<not> Is (cur p) item_RETURN \<Longrightarrow>
     parseExpr lib m LOWEST p = Some (Some s, p1) \<Longrightarrow>
     spec_main_loop lib m (next p1) rest p' \<Longrightarrow>
     spec_main_loop lib m p (s # rest) p'"
| nil_expression:
    "\<not> Is (cur p) item_EOF \<Longrightarrow> \<not> Is (cur p) item_RETURN \<Longrightarrow>
     parseExpr lib m LOWEST p = Some (None, p1) \<Longrightarrow>
     spec_main_loop lib m (next p1) rest p' \<Longrightarrow>
     spec_main_loop lib m p rest p'"

section \<open>Evaluation of Times and Less\<close>

lemma Eval_Literal: "Eval rt (Literal v s) env = Some (v, env)"
  by (simp add: Literal_def)

lemma Eval_Identifier_unbound:
  "map_of env name = None \<Longrightarrow>
   Eval rt (Identifier name) env = Some (obj_Error (''identifier not found: '' @ name), env)"
  by (simp add: Identifier_def)

lemma Eval_Assign_Literal:
  "Eval rt (Assign_Literal name v s) env = Some (v, (name, v) # env)"
  by (simp add: Assign_Literal_def)

lemma Eval_Times_Some:
  "Eval rt l env = Some (left, env1) \<Longrightarrow> Eval rt r env1 = Some (right, env2) \<Longrightarrow>
   Eval rt (Times (Some l) (Some r)) env = Some (Times_apply rt left right, env2)"
  by simp

lemma Eval_Less_Some:
  "Eval rt l env = Some (left, env1) \<Longrightarrow> Eval rt r env1 = Some (right, env2) \<Longrightarrow>
   Eval rt (Less (Some l) (Some r)) env = Some (Less_apply rt left right, env2)"
  by simp

text \<open>
  C1. \<open>Times.Eval\<close>, when both operands return values that are not Errors and have the
  same kind: two Integers give the Integer of their (64-bit, wrapping) product, two
  Floats give the Float of their product, and operands of any other kind give the Error
  "unsupported operator '*' for type T" with T that kind.
\<close>

theorem Times_Eval_same_kind:
  assumes "Eval rt l env = Some (left, env1)" and "Eval rt r env1 = Some (right, env2)"
    and "\<not> isError left" and "\<not> isError right" and "Type left = Type right"
  shows "(\<forall>a b. left = obj_Integer a \<longrightarrow> right = obj_Integer b \<longrightarrow>
            Eval rt (Times (Some l) (Some r)) env = Some (obj_Integer (a * b), env2))
       \<and> (\<forall>a b. left = obj_Float a \<longrightarrow> right = obj_Float b \<longrightarrow>
            Eval rt (Times (Some l) (Some r)) env = Some (obj_Float (float64_mul rt a b), env2))
       \<and> (Type left \<noteq> obj_INT \<longrightarrow> Type left \<noteq> obj_FLOAT \<longrightarrow>
            Eval rt (Times (Some l) (Some r)) env =
              Some (obj_Error (''unsupported operator '*' for type '' @ fmt_Type rt (Type left)), env2))"
proof -
  have E: "Eval rt (Times (Some l) (Some r)) env = Some (Times_apply rt left right, env2)"
    using assms(1,2) by (rule Eval_Times_Some)
  show ?thesis
    unfolding E using assms(3,4,5)
    by (cases left; cases right)
       (simp_all add: Times_apply_def isError_def obj_NewInteger_def obj_NewFloat_def obj_NewError_def)
qed

theorem Times_Eval_same_kind_witness:
  "Eval sample_runtime (Times (Some (Literal (obj_Integer 6) ''6'')) (Some (Literal (obj_Integer 7) ''7''))) []
     = Some (obj_Integer 42, [])
   \<and> Eval sample_runtime (Times (Some (Literal (obj_Float 6) ''6'')) (Some (Literal (obj_Float 7) ''7''))) []
     = Some (obj_Float (float64_mul sample_runtime 6 7), [])
   \<and> Eval sample_runtime (Times (Some (Literal (obj_String ''a'') ''a'')) (Some (Literal (obj_String ''b'') ''b''))) []
     = Some (obj_Error (''unsupported operator '*' for type '' @ fmt_Type sample_runtime obj_STRING), [])"
proof -
  have e: "\<And>v s env. Eval sample_runtime (Literal v s) env = Some (v, env)"
    by (simp add: Literal_def)
  show ?thesis
    using Times_Eval_same_kind [OF e e, of "obj_Integer 6" "obj_Integer 7" "[]"]
      Times_Eval_same_kind [OF e e, of "obj_Float 6" "obj_Float 7" "[]"]
      Times_Eval_same_kind [OF e e, of "obj_String ''a''" "obj_String ''b''" "[]"]
    by (simp add: isError_def e)
qed

text \<open>
  C2, as stated, fails: a node does not return as soon as its left operand has given an
  Error. In \<open>a * (b = 1)\<close> and \<open>a < (b = 1)\<close> with \<open>a\<close> unbound, the left operand
  evaluates to an Error and leaves the environment empty, yet the right operand is
  evaluated afterwards and binds \<open>b\<close>.
\<close>

theorem Eval_error_not_immediate:
  "Eval sample_runtime (Identifier ''a'') [] = Some (obj_Error ''identifier not found: a'', [])
   \<and> isError (obj_Error ''identifier not found: a'')
   \<and> Eval sample_runtime
        (Times (Some (Identifier ''a'')) (Some (Assign_Literal ''b'' (obj_Integer 1) ''b = 1''))) []
       = Some (obj_Error ''identifier not found: a'', [(''b'', obj_Integer 1)])
   \<and> Eval sample_runtime
        (Less (Some (Identifier ''a'')) (Some (Assign_Literal ''b'' (obj_Integer 1) ''b = 1''))) []
       = Some (obj_Error ''identifier not found: a'', [(''b'', obj_Integer 1)])"
  by (simp add: Eval_Identifier_unbound Eval_Assign_Literal Times_apply_def Less_apply_def isError_def)

text \<open>
  C2, amended. \<open>Times.Eval\<close> and \<open>Less.Eval\<close> evaluate both operands, the left one first
  and the right one in the environment the left one leaves, also when the left result is
  an Error. Then the left result is returned if it is an Error, otherwise the right
  result if it is an Error: the value is the first Error in left-to-right order, and the
  environment is the one left by the right operand.
\<close>

theorem Eval_error_propagation:
  assumes "Eval rt l env = Some (left, env1)" and "Eval rt r env1 = Some (right, env2)"
  shows "(isError left \<longrightarrow>
            Eval rt (Times (Some l) (Some r)) env = Some (left, env2)
          \<and> Eval rt (Less (Some l) (Some r)) env = Some (left, env2))
       \<and> (\<not> isError left \<longrightarrow> isError right \<longrightarrow>
            Eval rt (Times (Some l) (Some r)) env = Some (right, env2)
          \<and> Eval rt (Less (Some l) (Some r)) env = Some (right, env2))"
  using assms by (simp add: Times_apply_def Less_apply_def)

theorem Eval_error_propagation_witness:
  "Eval sample_runtime
     (Times (Some (Identifier ''a'')) (Some (Literal (obj_Integer 1) ''1''))) []
     = Some (obj_Error ''identifier not found: a'', [])
   \<and> Eval sample_runtime
     (Less (Some (Literal (obj_Integer 1) ''1'')) (Some (Identifier ''a''))) []
     = Some (obj_Error ''identifier not found: a'', [])"
proof -
  have a: "Eval sample_runtime (Identifier ''a'') [] = Some (obj_Error ''identifier not found: a'', [])"
    by (simp add: Eval_Identifier_unbound)
  have b: "Eval sample_runtime (Literal (obj_Integer 1) ''1'') [] = Some (obj_Integer 1, [])"
    by (rule Eval_Literal)
  show ?thesis
    using Eval_error_propagation [OF a b] Eval_error_propagation [OF b a]
    by (simp add: isError_def)
qed

text \<open>
  C3. When both operands of a Times or Less node return values that are not Errors and
  whose kinds T1 and T2 differ, the node evaluates to the Error "invalid operation L op R
  (mismatched types T1 and T2)", with L and R the two values as \<open>%v\<close> prints them and op
  the operator of the node; neither the product nor the comparison enters the result.
\<close>

theorem binary_Eval_mismatched_types:
  assumes "Eval rt l env = Some (left, env1)" and "Eval rt r env1 = Some (right, env2)"
    and "\<not> isError left" and "\<not> isError right" and "Type left \<noteq> Type right"
  shows "Eval rt (Times (Some l) (Some r)) env =
           Some (obj_Error (''invalid operation '' @ fmt_Object rt left @ '' * '' @ fmt_Object rt right
              @ '' (mismatched types '' @ fmt_Type rt (Type left) @ '' and ''
              @ fmt_Type rt (Type right) @ '')''), env2)
       \<and> Eval rt (Less (Some l) (Some r)) env =
           Some (obj_Error (''invalid operation '' @ fmt_Object rt left @ '' < '' @ fmt_Object rt right
              @ '' (mismatched types '' @ fmt_Type rt (Type left) @ '' and ''
              @ fmt_Type rt (Type right) @ '')''), env2)"
  using assms by (simp add: Times_apply_def Less_apply_def obj_NewError_def)

theorem binary_Eval_mismatched_types_witness:
  "Eval sample_runtime
     (Times (Some (Literal (obj_Integer 1) ''1'')) (Some (Literal (obj_Boolean True) ''true''))) []
     = Some (obj_Error ''invalid operation obj * obj (mismatched types type and type)'', [])
   \<and> Eval sample_runtime
     (Less (Some (Literal (obj_Integer 1) ''1'')) (Some (Literal (obj_Boolean True) ''true''))) []
     = Some (obj_Error ''invalid operation obj < obj (mismatched types type and type)'', [])"
proof -
  have e: "\<And>v s env. Eval sample_runtime (Literal v s) env = Some (v, env)"
    by (rule Eval_Literal)
  show ?thesis
    using binary_Eval_mismatched_types [OF e e, of "obj_Integer 1" "obj_Boolean True" "[]"]
    by (simp add: isError_def sample_runtime_def Eval_Literal)
qed

text \<open>
  C4. \<open>Less.Eval\<close>, when both operands return values that are not Errors and have the
  same kind: two Integers give the Boolean of the signed comparison, two Floats the
  Boolean of the float comparison, operands of any other kind (Strings too) the Error
  "unsupported operator '<' for type T"; the value returned is a Boolean or an Error.
\<close>

theorem Less_Eval_same_kind:
  assumes "Eval rt l env = Some (left, env1)" and "Eval rt r env1 = Some (right, env2)"
    and "\<not> isError left" and "\<not> isError right" and "Type left = Type right"
  shows "(\<forall>a b. left = obj_Integer a \<longrightarrow> right = obj_Integer b \<longrightarrow>
            Eval rt (Less (Some l) (Some r)) env = Some (obj_Boolean (a <s b), env2))
       \<and> (\<forall>a b. left = obj_Float a \<longrightarrow> right = obj_Float b \<longrightarrow>
            Eval rt (Less (Some l) (Some r)) env = Some (obj_Boolean (float64_less rt a b), env2))
       \<and> (Type left \<noteq> obj_INT \<longrightarrow> Type left \<noteq> obj_FLOAT \<longrightarrow>
            Eval rt (Less (Some l) (Some r)) env =
              Some (obj_Error (''unsupported operator '<' for type '' @ fmt_Type rt (Type left)), env2))
       \<and> (\<exists>v. Eval rt (Less (Some l) (Some r)) env = Some (v, env2)
              \<and> (Type v = obj_BOOL \<or> Type v = obj_ERROR))"
proof -
  have E: "Eval rt (Less (Some l) (Some r)) env = Some (Less_apply rt left right, env2)"
    using assms(1,2) by (rule Eval_Less_Some)
  show ?thesis
    unfolding E using assms(3,4,5)
    by (cases left; cases right)
       (simp_all add: Less_apply_def isError_def obj_ParseBool_def obj_NewError_def)
qed

theorem Less_Eval_same_kind_witness:
  "Eval sample_runtime (Less (Some (Literal (obj_Integer (- 1)) ''-1'')) (Some (Literal (obj_Integer 7) ''7''))) []
     = Some (obj_Boolean True, [])
   \<and> Eval sample_runtime (Less (Some (Literal (obj_Float 6) ''6'')) (Some (Literal (obj_Float 7) ''7''))) []
     = Some (obj_Boolean (float64_less sample_runtime 6 7), [])
   \<and> Eval sample_runtime (Less (Some (Literal (obj_String ''a'') ''a'')) (Some (Literal (obj_String ''b'') ''b''))) []
     = Some (obj_Error (''unsupported operator '<' for type '' @ fmt_Type sample_runtime obj_STRING), [])"
proof -
  have e: "\<And>v s env. Eval sample_runtime (Literal v s) env = Some (v, env)"
    by (rule Eval_Literal)
  show ?thesis
    using Less_Eval_same_kind [OF e e, of "obj_Integer (- 1)" "obj_Integer 7" "[]"]
      Less_Eval_same_kind [OF e e, of "obj_Float 6" "obj_Float 7" "[]"]
      Less_Eval_same_kind [OF e e, of "obj_String ''a''" "obj_String ''b''" "[]"]
    by (simp add: isError_def e word_sless_alt)
qed

text \<open>
  C9. \<open>String\<close> of a Times node with children A and B is "(A * B)" and of a Less node
  "(A < B)", where A and B stand for what \<open>String\<close> gives for the children.
\<close>

theorem String_binary:
  "String (Times (Some a) (Some b)) = ''('' @ String a @ '' * '' @ String b @ '')''
   \<and> String (Less (Some a) (Some b)) = ''('' @ String a @ '' < '' @ String b @ '')''"
  by simp

section \<open>The parser at concrete inputs\<close>

lemmas precedence_classes =
  LOWEST_def ASSIGNMENT_def EQUALS_def LESSGREATER_def SUM_class_def PRODUCT_def PREFIX_def
  CALL_def INDEX_def

lemmas binary_parsers =
  parsePlus_def parseMinus_def parseAsterisk_def parseSlash_def parseEquals_def
  parseNotEquals_def parseLess_def parseGreater_def parseLessEq_def parseGreaterEq_def
  parseAnd_def parseOr_def parseAssign_def parsePlusAssign_def parseMinusAssign_def
  parseSlashAssign_def parseAsteriskAssign_def

lemmas parser_steps =
  recv_def next_def Is_def errors_def peekError_def expectPeek_def peekPrecedence_def
  precedence_def noParsePrefixFnError_def precedences_def precedence_classes

lemmas parser_run =
  parser_steps prefixParsers_def infixParsers_def binary_parsers parseBinary_def
  parseIdentifier_def parseInteger_def parseFloat_def parseString_def parseBoolean_def
  parseReturn_def parseStatement_def parseGroupedExpr_def parseBlock_def
  parseFunctionParams_def parseFunction_def parseNodeList_def parseList_def
  parsePrefixMinus_def parseBang_def parseCall_def parseIndex_def
  newParser_def parse_def Parse_def tok_def ident_def

lemma dom_infixParsers:
  "dom (infixParsers lib pe m) = fst ` set binaryOperators \<union> {item_LPAREN, item_LBRACKET}"
  unfolding infixParsers_def dom_map_of_conv_image_fst binaryOperators_def
  by (simp add: insert_commute)

lemma no_precedence_no_infix:
  "precedences t = None \<Longrightarrow> infixParsers lib pe n t = None"
  by (cases t) (simp_all add: precedences_def infixParsers_def)

text \<open>
  C10. For a token kind without an entry in \<open>precedences\<close>, \<open>precedence\<close> and
  \<open>peekPrecedence\<close> return LOWEST. With such a token as peek, the infix loop of
  \<open>parseExpr\<close> returns the left expression at once, whatever the minimum precedence, and
  consumes nothing; so \<open>parseExpr\<close> returns what its prefix parser returned, having
  stepped onto the peek token only when that is a semicolon.
\<close>

theorem unregistered_token_ends_expression:
  "(precedences (Typ (cur p)) = None \<longrightarrow> precedence p = LOWEST)
   \<and> (precedences (Typ (peek p)) = None \<longrightarrow>
        peekPrecedence p = LOWEST
      \<and> parseExpr_loop lib pe (Suc n) prec leftExp p = Some (leftExp, p)
      \<and> (\<forall>p0 prefixFn.
           prefixParsers lib (parseExpr lib (Suc n)) (Suc n) (Typ (cur p0)) = Some prefixFn \<longrightarrow>
           prefixFn p0 = Some (leftExp, p) \<longrightarrow>
           parseExpr lib (Suc (Suc n)) prec p0 =
             Some (leftExp, if Is (peek p) item_SEMICOLON then next p else p)))"
  by (simp add: precedence_def peekPrecedence_def no_precedence_no_infix)

theorem unregistered_token_ends_expression_witness:
  "precedence (newParser [tok item_RPAREN, tok item_EOF]) = LOWEST
   \<and> peekPrecedence (newParser [ident ''a'', tok item_RPAREN]) = LOWEST
   \<and> parseExpr sample_stdlib 2 (- 1) (newParser [ident ''a'', tok item_RPAREN])
       = Some (Some (ast_NewIdentifier ''a''), newParser [ident ''a'', tok item_RPAREN])"
proof -
  let ?p = "newParser [ident ''a'', tok item_RPAREN]"
  have 1: "precedences (Typ (cur (newParser [tok item_RPAREN, tok item_EOF]))) = None"
    by (simp add: parser_run)
  have 2: "precedences (Typ (peek ?p)) = None"
    by (simp add: parser_run)
  have 3: "prefixParsers sample_stdlib (parseExpr sample_stdlib (Suc 0)) (Suc 0) (Typ (cur ?p))
            = Some parseIdentifier"
    by (simp add: parser_run)
  have 4: "parseIdentifier ?p = Some (Some (ast_NewIdentifier ''a''), ?p)"
    by (simp add: parser_run)
  have 5: "\<not> Is (peek ?p) item_SEMICOLON"
    by (simp add: parser_run)
  have 6: "(2::nat) = Suc (Suc 0)" by simp
  note A = unregistered_token_ends_expression
            [of "newParser [tok item_RPAREN, tok item_EOF]" sample_stdlib "parseExpr sample_stdlib 0" 0 0 None]
  note B = unregistered_token_ends_expression
            [of ?p sample_stdlib "parseExpr sample_stdlib 0" 0 "- 1" "Some (ast_NewIdentifier ''a'')"]
  have a: "precedence (newParser [tok item_RPAREN, tok item_EOF]) = LOWEST"
    using A 1 by blast
  have b: "peekPrecedence ?p = LOWEST"
    using B 2 by blast
  have "\<forall>p0 prefixFn.
           prefixParsers sample_stdlib (parseExpr sample_stdlib (Suc 0)) (Suc 0) (Typ (cur p0)) = Some prefixFn \<longrightarrow>
           prefixFn p0 = Some (Some (ast_NewIdentifier ''a''), ?p) \<longrightarrow>
           parseExpr sample_stdlib (Suc (Suc 0)) (- 1) p0 =
             Some (Some (ast_NewIdentifier ''a''), if Is (peek ?p) item_SEMICOLON then next ?p else ?p)"
    using B 2 by blast
  from this [rule_format, OF 3 4] 5
  have c: "parseExpr sample_stdlib (Suc (Suc 0)) (- 1) ?p = Some (Some (ast_NewIdentifier ''a''), ?p)"
    by simp
  show ?thesis
    unfolding 6 using a b c by blast
qed

text \<open>
  C6. The kind POWER has the precedence class PRODUCT and neither an infix nor a prefix
  parser. Parsing the tokens of \<open>a ** b\<close> builds no power node: the result is the Block
  of the two identifiers, and the error list holds the one message of
  \<open>noParsePrefixFnError\<close> for POWER, "no parse prefix function for 'T' found" with T what
  \<open>%s\<close> prints for POWER.
\<close>

theorem power_has_no_infix_parser:
  "precedences item_POWER = Some PRODUCT
   \<and> infixParsers lib pe m item_POWER = None
   \<and> prefixParsers lib pe m item_POWER = None
   \<and> Parse lib (Suc (Suc (Suc (Suc n))))
        [\<lparr>Typ = item_IDENT, Val = a\<rparr>, \<lparr>Typ = item_POWER, Val = pw\<rparr>,
         \<lparr>Typ = item_IDENT, Val = b\<rparr>, \<lparr>Typ = item_EOF, Val = e\<rparr>]
       = Some (ast_Block [ast_NewIdentifier a, ast_NewIdentifier b],
               [''no parse prefix function for '' @ [CHR 0x27] @ fmt_s lib item_POWER @ [CHR 0x27] @ '' found''])"
  by (simp add: parser_run)

text \<open>
  C5, as stated, fails for a kind with a registered infix parser that is not a binary
  operator: \<open>(\<close> has the precedence class CALL and the infix parser \<open>parseCall\<close>, and
  parsing \<open>a ( b ( c\<close> yields a call of \<open>a\<close> without arguments and two errors, not a
  tree \<open>((a t b) t c)\<close>.
\<close>

theorem call_is_not_left_associative:
  "precedences item_LPAREN = Some CALL
   \<and> infixParsers sample_stdlib (parseExpr sample_stdlib 0) 0 item_LPAREN
       = Some (parseCall sample_stdlib (parseExpr sample_stdlib 0) 0)
   \<and> Parse sample_stdlib 6
        [ident ''a'', tok item_LPAREN, ident ''b'', tok item_LPAREN, ident ''c'', tok item_EOF]
       = Some (ast_Block [ast_NewCall (Some (ast_NewIdentifier ''a'')) None],
               [''expected next item to be tok, got tok instead'',
                ''expected next item to be tok, got tok instead''])"
proof -
  have 6: "(6::nat) = Suc (Suc (Suc (Suc (Suc (Suc 0)))))" by simp
  show ?thesis unfolding 6 by (simp add: parser_run sample_stdlib_def)
qed

text \<open>
  C5, amended. The kinds with a registered infix parser are the seventeen binary
  operator kinds and \<open>(\<close> and \<open>[\<close>. For each binary operator kind t, the infix parser
  reads the precedence of the current token and parses the right operand with it, and
  parsing \<open>a t b t c\<close> yields the tree \<open>((a t b) t c)\<close> and no error.
\<close>

theorem binary_operators_left_associative:
  assumes "(t, new) \<in> set binaryOperators"
  shows "dom (infixParsers lib pe m) = fst ` set binaryOperators \<union> {item_LPAREN, item_LBRACKET}
       \<and> infixParsers lib pe m t = Some (parseBinary new pe)
       \<and> parseBinary new pe left p =
           (case pe (precedence p) (next p) of
              None \<Rightarrow> None
            | Some (right, p') \<Rightarrow> Some (Some (new left right), p'))
       \<and> Parse lib (Suc (Suc (Suc (Suc n))))
          [\<lparr>Typ = item_IDENT, Val = a\<rparr>, \<lparr>Typ = t, Val = op1\<rparr>,
           \<lparr>Typ = item_IDENT, Val = b\<rparr>, \<lparr>Typ = t, Val = op2\<rparr>,
           \<lparr>Typ = item_IDENT, Val = c\<rparr>, \<lparr>Typ = item_EOF, Val = e\<rparr>]
         = Some (ast_Block
                  [new (Some (new (Some (ast_NewIdentifier a)) (Some (ast_NewIdentifier b))))
                       (Some (ast_NewIdentifier c))], [])"
proof (intro conjI)
  show "dom (infixParsers lib pe m) = fst ` set binaryOperators \<union> {item_LPAREN, item_LBRACKET}"
    by (rule dom_infixParsers)
  show "infixParsers lib pe m t = Some (parseBinary new pe)"
    using assms unfolding binaryOperators_def by (auto simp add: infixParsers_def binary_parsers)
  show "parseBinary new pe left p =
           (case pe (precedence p) (next p) of
              None \<Rightarrow> None
            | Some (right, p') \<Rightarrow> Some (Some (new left right), p'))"
    by (simp add: parseBinary_def Let_def split: option.splits)
  show "Parse lib (Suc (Suc (Suc (Suc n))))
          [\<lparr>Typ = item_IDENT, Val = a\<rparr>, \<lparr>Typ = t, Val = op1\<rparr>,
           \<lparr>Typ = item_IDENT, Val = b\<rparr>, \<lparr>Typ = t, Val = op2\<rparr>,
           \<lparr>Typ = item_IDENT, Val = c\<rparr>, \<lparr>Typ = item_EOF, Val = e\<rparr>]
         = Some (ast_Block
                  [new (Some (new (Some (ast_NewIdentifier a)) (Some (ast_NewIdentifier b))))
                       (Some (ast_NewIdentifier c))], [])"
    using assms unfolding binaryOperators_def by (auto simp add: parser_run)
qed

theorem binary_operators_left_associative_witness:
  "Parse sample_stdlib 4
        [ident ''a'', tok item_MINUS, ident ''b'', tok item_MINUS, ident ''c'', tok item_EOF]
       = Some (ast_Block
                  [ast_NewMinus (Some (ast_NewMinus (Some (ast_NewIdentifier ''a'')) (Some (ast_NewIdentifier ''b''))))
                       (Some (ast_NewIdentifier ''c''))], [])"
proof -
  have 4: "(4::nat) = Suc (Suc (Suc (Suc 0)))" by simp
  have m: "(item_MINUS, ast_NewMinus) \<in> set binaryOperators"
    by (simp add: binaryOperators_def)
  show ?thesis
    unfolding 4 tok_def ident_def
    using binary_operators_left_associative
            [OF m, THEN conjunct2, THEN conjunct2, THEN conjunct2] by blast
qed

section \<open>Parse errors and nil nodes\<close>

lemma reportingI:
  assumes "\<And>p r p'. f p = Some (r, p') \<Longrightarrow>
             length (errs p) \<le> length (errs p') \<and> (length (errs p') = length (errs p) \<longrightarrow> ok r)"
  shows "reporting ok f"
  using assms unfolding reporting_def by blast

lemma reportingD:
  assumes "reporting ok f" and "f p = Some (r, p')"
  shows "length (errs p) \<le> length (errs p')" and "length (errs p') = length (errs p) \<Longrightarrow> ok r"
  using assms unfolding reporting_def by blast+

lemma reporting_exprD:
  assumes "reporting_expr pe" and "pe prec p = Some (r, p')"
  shows "length (errs p) \<le> length (errs p')" and "length (errs p') = length (errs p) \<Longrightarrow> filled r"
  using assms unfolding reporting_expr_def reporting_def by blast+

lemma errs_next [simp]: "errs (next p) = errs p"
  by (simp add: next_def split: prod.splits)

lemma expectPeek_errs:
  "expectPeek lib t p = (ok, p') \<Longrightarrow>
   (ok \<longrightarrow> errs p' = errs p) \<and> (\<not> ok \<longrightarrow> length (errs p') = Suc (length (errs p)))"
  by (auto simp: expectPeek_def peekError_def split: if_splits)

lemma reporting_leaves:
  "reporting filled parseIdentifier" "reporting filled (parseInteger lib)"
  "reporting filled (parseFloat lib)" "reporting filled parseString"
  "reporting filled parseBoolean"
  by (auto simp: reporting_def parseIdentifier_def parseInteger_def parseFloat_def
      parseString_def parseBoolean_def split: option.splits)

lemma reporting_parsePrefixMinus:
  assumes "reporting_expr pe"
  shows "reporting filled (parsePrefixMinus pe)"
proof (rule reportingI)
  fix p r p' assume "parsePrefixMinus pe p = Some (r, p')"
  then obtain e where e: "pe PREFIX (next p) = Some (e, p')" and r: "r = Some (ast_NewPrefixMinus e)"
    by (auto simp: parsePrefixMinus_def split: Option.bind_splits)
  from reporting_exprD [OF assms e] r
  show "length (errs p) \<le> length (errs p') \<and> (length (errs p') = length (errs p) \<longrightarrow> filled r)"
    by simp
qed

lemma reporting_parseBang:
  assumes "reporting_expr pe"
  shows "reporting filled (parseBang pe)"
proof (rule reportingI)
  fix p r p' assume "parseBang pe p = Some (r, p')"
  then obtain e where e: "pe PREFIX (next p) = Some (e, p')" and r: "r = Some (ast_NewBang e)"
    by (auto simp: parseBang_def split: Option.bind_splits)
  from reporting_exprD [OF assms e] r
  show "length (errs p) \<le> length (errs p') \<and> (length (errs p') = length (errs p) \<longrightarrow> filled r)"
    by simp
qed

lemma reporting_parseReturn:
  assumes "reporting_expr pe"
  shows "reporting filled (parseReturn pe)"
proof (rule reportingI)
  fix p r p' assume "parseReturn pe p = Some (r, p')"
  then obtain e p1 where e: "pe LOWEST (next p) = Some (e, p1)" and r: "r = Some (ast_NewReturn e)"
    and p': "errs p' = errs p1"
    by (auto simp: parseReturn_def split: Option.bind_splits if_splits)
  from reporting_exprD [OF assms e] r p'
  show "length (errs p) \<le> length (errs p') \<and> (length (errs p') = length (errs p) \<longrightarrow> filled r)"
    by simp
qed

lemma reporting_parseStatement:
  assumes "reporting_expr pe"
  shows "reporting filled (parseStatement pe)"
  using reporting_parseReturn [OF assms] assms
  by (auto simp: reporting_def reporting_expr_def parseStatement_def)

lemma reporting_parseGroupedExpr:
  assumes "reporting_expr pe"
  shows "reporting filled (parseGroupedExpr lib pe)"
proof (rule reportingI)
  fix p r p' assume "parseGroupedExpr lib pe p = Some (r, p')"
  then obtain e p1 ok where e: "pe LOWEST (next p) = Some (e, p1)"
    and x: "expectPeek lib item_RPAREN p1 = (ok, p')" and r: "r = (if ok then e else None)"
    by (auto simp: parseGroupedExpr_def split: Option.bind_splits prod.splits bool.splits)
  from reporting_exprD [OF assms e] expectPeek_errs [OF x] r
  show "length (errs p) \<le> length (errs p') \<and> (length (errs p') = length (errs p) \<longrightarrow> filled r)"
    by (cases ok) auto
qed

lemma reporting_parseBlock_loop:
  assumes "reporting_expr pe"
  shows "reporting (\<lambda>r. list_all populated block \<longrightarrow> filled r) (parseBlock_loop pe n block)"
proof (induction n arbitrary: block)
  case 0
  show ?case by (simp add: reporting_def)
next
  case (Suc n)
  show ?case
  proof (rule reportingI)
    fix p r p' assume run: "parseBlock_loop pe (Suc n) block p = Some (r, p')"
    show "length (errs p) \<le> length (errs p') \<and>
          (length (errs p') = length (errs p) \<longrightarrow> list_all populated block \<longrightarrow> filled r)"
    proof (cases "\<not> Is (cur p) item_RBRACE \<and> \<not> Is (cur p) item_EOF")
      case False
      with run show ?thesis by auto
    next
      case True
      with run obtain s p1 where s: "parseStatement pe p = Some (s, p1)"
        and rest: "parseBlock_loop pe n (case s of None \<Rightarrow> block | Some st \<Rightarrow> block @ [st]) (next p1) = Some (r, p')"
        by (auto split: Option.bind_splits)
      note S = reportingD [OF reporting_parseStatement [OF assms] s]
      note R = reportingD [OF Suc.IH rest]
      have "filled s \<Longrightarrow> list_all populated block \<Longrightarrow>
            list_all populated (case s of None \<Rightarrow> block | Some st \<Rightarrow> block @ [st])"
        by (cases s) auto
      with S R show ?thesis by auto
    qed
  qed
qed

lemma reporting_parseBlock:
  assumes "reporting_expr pe"
  shows "reporting filled (parseBlock pe n)"
proof (rule reportingI)
  fix p r p' assume "parseBlock pe n p = Some (r, p')"
  then have "parseBlock_loop pe n [] (next p) = Some (r, p')"
    by (simp add: parseBlock_def)
  from reportingD [OF reporting_parseBlock_loop [OF assms] this]
  show "length (errs p) \<le> length (errs p') \<and> (length (errs p') = length (errs p) \<longrightarrow> filled r)"
    by simp
qed

lemma reporting_parseIfExpr:
  assumes "reporting_expr pe"
  shows "reporting filled (parseIfExpr lib pe n)"
proof (induction n)
  case 0
  show ?case by (simp add: reporting_def)
next
  case (Suc n)
  note B = reportingD [OF reporting_parseBlock [OF assms, where n=n]]
  note E = reporting_exprD [OF assms]
  note I = reportingD [OF Suc.IH]
  show ?case
  proof (rule reportingI)
    fix p r p' assume run: "parseIfExpr lib pe (Suc n) p = Some (r, p')"
    then obtain cond p1 where c: "pe LOWEST (next p) = Some (cond, p1)"
      by (auto split: Option.bind_splits)
    obtain ok p2 where x: "expectPeek lib item_LBRACE p1 = (ok, p2)"
      by (cases "expectPeek lib item_LBRACE p1")
    show "length (errs p) \<le> length (errs p') \<and> (length (errs p') = length (errs p) \<longrightarrow> filled r)"
    proof (cases ok)
      case False
      with run c x expectPeek_errs [OF x] E [OF c] show ?thesis by auto
    next
      case True
      with run c x obtain body p3 where b: "parseBlock pe n p2 = Some (body, p3)"
        by (auto split: Option.bind_splits)
      show ?thesis
      proof (cases "Is (peek p3) item_ELSE")
        case False
        with run c x True b expectPeek_errs [OF x] E [OF c] B [OF b] show ?thesis by auto
      next
        case else: True
        show ?thesis
        proof (cases "Is (peek (next p3)) item_IF")
          case True
          with run c x \<open>ok\<close> b else obtain alt where
            a: "parseIfExpr lib pe n (next (next p3)) = Some (alt, p')"
            and r: "r = Some (ast_NewIfExpr cond body alt)"
            by (auto simp: Let_def split: Option.bind_splits)
          have "filled alt \<Longrightarrow> (case alt of None \<Rightarrow> True | Some n \<Rightarrow> populated n)"
            by (cases alt) auto
          with r expectPeek_errs [OF x] \<open>ok\<close> E [OF c] B [OF b] I [OF a] show ?thesis by auto
        next
          case False
          obtain ok5 p5 where y: "expectPeek lib item_LBRACE (next p3) = (ok5, p5)"
            by (cases "expectPeek lib item_LBRACE (next p3)")
          show ?thesis
          proof (cases ok5)
            case False
            with run c x \<open>ok\<close> b else \<open>\<not> Is (peek (next p3)) item_IF\<close> y
              expectPeek_errs [OF x] expectPeek_errs [OF y] E [OF c] B [OF b]
            show ?thesis by (auto simp: Let_def)
          next
            case True
            with run c x \<open>ok\<close> b else \<open>\<not> Is (peek (next p3)) item_IF\<close> y obtain alt where
              a: "parseBlock pe n p5 = Some (alt, p')"
              and r: "r = Some (ast_NewIfExpr cond body alt)"
              by (auto simp: Let_def split: Option.bind_splits)
            have "filled alt \<Longrightarrow> (case alt of None \<Rightarrow> True | Some n \<Rightarrow> populated n)"
              by (cases alt) auto
            with r expectPeek_errs [OF x] expectPeek_errs [OF y] \<open>ok\<close> True E [OF c] B [OF b] B [OF a]
            show ?thesis by auto
          qed
        qed
      qed
    qed
  qed
qed


lemma errs_parseFunctionParams_loop:
  "parseFunctionParams_loop n ret p = Some (r, p') \<Longrightarrow> errs p' = errs p"
  by (induction n arbitrary: ret p) (auto simp: Let_def split: if_splits)

lemma reporting_parseFunctionParams:
  "reporting (\<lambda>r. True) (parseFunctionParams lib n)"
proof (rule reportingI)
  fix p r p' assume run: "parseFunctionParams lib n p = Some (r, p')"
  show "length (errs p) \<le> length (errs p') \<and> (length (errs p') = length (errs p) \<longrightarrow> True)"
  proof (cases "Is (peek p) item_RPAREN")
    case True
    with run show ?thesis by (auto simp: parseFunctionParams_def)
  next
    case False
    with run obtain ret p2 ok where
      l: "parseFunctionParams_loop n [Val (cur (next p))] (next p) = Some (ret, p2)"
      and x: "expectPeek lib item_RPAREN p2 = (ok, p')"
      by (auto simp: parseFunctionParams_def Let_def split: Option.bind_splits prod.splits bool.splits)
    from errs_parseFunctionParams_loop [OF l] expectPeek_errs [OF x]
    show ?thesis by (cases ok) auto
  qed
qed

lemma reporting_parseFunction:
  assumes "reporting_expr pe"
  shows "reporting filled (parseFunction lib pe n)"
proof (rule reportingI)
  fix p r p' assume run: "parseFunction lib pe n p = Some (r, p')"
  obtain ok1 p1 where x: "expectPeek lib item_LPAREN p = (ok1, p1)"
    by (cases "expectPeek lib item_LPAREN p")
  show "length (errs p) \<le> length (errs p') \<and> (length (errs p') = length (errs p) \<longrightarrow> filled r)"
  proof (cases ok1)
    case False
    with run x expectPeek_errs [OF x] show ?thesis by (auto simp: parseFunction_def)
  next
    case True
    with run x obtain params p2 where ps: "parseFunctionParams lib n p1 = Some (params, p2)"
      by (auto simp: parseFunction_def split: Option.bind_splits)
    obtain ok3 p3 where y: "expectPeek lib item_LBRACE p2 = (ok3, p3)"
      by (cases "expectPeek lib item_LBRACE p2")
    note P = reportingD(1) [OF reporting_parseFunctionParams ps]
    show ?thesis
    proof (cases ok3)
      case False
      with run x \<open>ok1\<close> ps y expectPeek_errs [OF x] expectPeek_errs [OF y] P
      show ?thesis by (auto simp: parseFunction_def)
    next
      case True
      with run x \<open>ok1\<close> ps y obtain body where b: "parseBlock pe n p3 = Some (body, p')"
        and r: "r = Some (ast_NewFunction params body)"
        by (auto simp: parseFunction_def split: Option.bind_splits)
      from r expectPeek_errs [OF x] expectPeek_errs [OF y] \<open>ok1\<close> True P
        reportingD [OF reporting_parseBlock [OF assms] b]
      show ?thesis by auto
    qed
  qed
qed

lemma reporting_parseNodeList_loop:
  assumes "reporting_expr pe"
  shows "reporting (\<lambda>r. list_all filled list \<longrightarrow> list_all filled r) (parseNodeList_loop pe n list)"
proof (induction n arbitrary: list)
  case 0
  show ?case by (simp add: reporting_def)
next
  case (Suc n)
  show ?case
  proof (rule reportingI)
    fix p r p' assume run: "parseNodeList_loop pe (Suc n) list p = Some (r, p')"
    show "length (errs p) \<le> length (errs p') \<and>
          (length (errs p') = length (errs p) \<longrightarrow> list_all filled list \<longrightarrow> list_all filled r)"
    proof (cases "Is (peek p) item_COMMA")
      case False
      with run show ?thesis by auto
    next
      case True
      with run obtain e p1 where e: "pe LOWEST (next (next p)) = Some (e, p1)"
        and rest: "parseNodeList_loop pe n (list @ [e]) p1 = Some (r, p')"
        by (auto split: Option.bind_splits)
      from reporting_exprD [OF assms e] reportingD [OF Suc.IH rest]
      show ?thesis by auto
    qed
  qed
qed

lemma reporting_parseNodeList:
  assumes "reporting_expr pe"
  shows "reporting filled_list (parseNodeList lib pe n end)"
proof (rule reportingI)
  fix p r p' assume run: "parseNodeList lib pe n end p = Some (r, p')"
  show "length (errs p) \<le> length (errs p') \<and> (length (errs p') = length (errs p) \<longrightarrow> filled_list r)"
  proof (cases "Is (peek p) end")
    case True
    with run show ?thesis by (auto simp: parseNodeList_def filled_list_def)
  next
    case False
    with run obtain e p1 list p2 ok where e: "pe LOWEST (next p) = Some (e, p1)"
      and l: "parseNodeList_loop pe n [e] p1 = Some (list, p2)"
      and x: "expectPeek lib end p2 = (ok, p')"
      and r: "r = (if ok then Some list else None)"
      by (auto simp: parseNodeList_def split: Option.bind_splits prod.splits bool.splits)
    from r reporting_exprD [OF assms e] reportingD [OF reporting_parseNodeList_loop [OF assms] l]
      expectPeek_errs [OF x]
    show ?thesis by (cases ok) (auto simp: filled_list_def)
  qed
qed

lemma reporting_parseList:
  assumes "reporting_expr pe"
  shows "reporting filled (parseList lib pe n)"
proof (rule reportingI)
  fix p r p' assume "parseList lib pe n p = Some (r, p')"
  then obtain nodes where l: "parseNodeList lib pe n item_RBRACKET p = Some (nodes, p')"
    and r: "r = Some (ast_NewList nodes)"
    by (auto simp: parseList_def split: Option.bind_splits)
  from r reportingD [OF reporting_parseNodeList [OF assms] l]
  show "length (errs p) \<le> length (errs p') \<and> (length (errs p') = length (errs p) \<longrightarrow> filled r)"
    by (auto simp: filled_list_def)
qed

lemma reporting_parseCall:
  assumes "reporting_expr pe"
  shows "reporting (\<lambda>r. filled fn \<longrightarrow> filled r) (parseCall lib pe n fn)"
proof (rule reportingI)
  fix p r p' assume "parseCall lib pe n fn p = Some (r, p')"
  then obtain args where l: "parseNodeList lib pe n item_RPAREN p = Some (args, p')"
    and r: "r = Some (ast_NewCall fn args)"
    by (auto simp: parseCall_def split: Option.bind_splits)
  from r reportingD [OF reporting_parseNodeList [OF assms] l]
  show "length (errs p) \<le> length (errs p') \<and>
        (length (errs p') = length (errs p) \<longrightarrow> filled fn \<longrightarrow> filled r)"
    by (auto simp: filled_list_def)
qed

lemma reporting_parseIndex:
  assumes "reporting_expr pe"
  shows "reporting (\<lambda>r. filled list \<longrightarrow> filled r) (parseIndex lib pe list)"
proof (rule reportingI)
  fix p r p' assume "parseIndex lib pe list p = Some (r, p')"
  then obtain e p1 ok where e: "pe LOWEST (next p) = Some (e, p1)"
    and x: "expectPeek lib item_RBRACKET p1 = (ok, p')"
    and r: "r = (if ok then Some (ast_NewIndex list e) else None)"
    by (auto simp: parseIndex_def split: Option.bind_splits prod.splits bool.splits)
  from r reporting_exprD [OF assms e] expectPeek_errs [OF x]
  show "length (errs p) \<le> length (errs p') \<and>
        (length (errs p') = length (errs p) \<longrightarrow> filled list \<longrightarrow> filled r)"
    by (cases ok) auto
qed

lemma reporting_parseBinary:
  assumes "reporting_expr pe" and "\<And>l r. populated (new l r) = (filled l \<and> filled r)"
  shows "reporting (\<lambda>r. filled left \<longrightarrow> filled r) (parseBinary new pe left)"
proof (rule reportingI)
  fix p r p' assume "parseBinary new pe left p = Some (r, p')"
  then obtain e where e: "pe (precedence p) (next p) = Some (e, p')"
    and r: "r = Some (new left e)"
    by (auto simp: parseBinary_def Let_def split: Option.bind_splits)
  from r reporting_exprD [OF assms(1) e] assms(2)
  show "length (errs p) \<le> length (errs p') \<and>
        (length (errs p') = length (errs p) \<longrightarrow> filled left \<longrightarrow> filled r)"
    by auto
qed

lemma reporting_prefixParsers:
  assumes "reporting_expr pe" and "prefixParsers lib pe n t = Some prefixFn"
  shows "reporting filled prefixFn"
  using assms(2)
  by (auto simp: prefixParsers_def split: if_splits
      intro!: reporting_leaves reporting_parsePrefixMinus [OF assms(1)]
        reporting_parseBang [OF assms(1)] reporting_parseGroupedExpr [OF assms(1)]
        reporting_parseIfExpr [OF assms(1)] reporting_parseFunction [OF assms(1)]
        reporting_parseList [OF assms(1)])

lemma reporting_infixParsers:
  assumes "reporting_expr pe" and "infixParsers lib pe n t = Some infixFn"
  shows "reporting (\<lambda>r. filled left \<longrightarrow> filled r) (infixFn left)"
  using assms(2)
  by (auto simp: infixParsers_def binary_parsers split: if_splits
      intro!: reporting_parseBinary [OF assms(1)] reporting_parseCall [OF assms(1)]
        reporting_parseIndex [OF assms(1)])

lemma reporting_parseExpr_loop:
  assumes "reporting_expr pe"
  shows "reporting (\<lambda>r. filled leftExp \<longrightarrow> filled r) (parseExpr_loop lib pe n prec leftExp)"
proof (induction n arbitrary: leftExp)
  case 0
  show ?case by (simp add: reporting_def)
next
  case (Suc n)
  show ?case
  proof (rule reportingI)
    fix p r p' assume run: "parseExpr_loop lib pe (Suc n) prec leftExp p = Some (r, p')"
    show "length (errs p) \<le> length (errs p') \<and>
          (length (errs p') = length (errs p) \<longrightarrow> filled leftExp \<longrightarrow> filled r)"
    proof (cases "\<not> Is (peek p) item_SEMICOLON \<and> prec < peekPrecedence p")
      case False
      with run show ?thesis by auto
    next
      case True
      show ?thesis
      proof (cases "infixParsers lib pe n (Typ (peek p))")
        case None
        with run True show ?thesis by auto
      next
        case (Some infixFn)
        with run True obtain l1 p1 where i: "infixFn leftExp (next p) = Some (l1, p1)"
          and rest: "parseExpr_loop lib pe n prec l1 p1 = Some (r, p')"
          by (auto split: Option.bind_splits)
        from reportingD [OF reporting_infixParsers [OF assms Some] i] reportingD [OF Suc.IH rest]
        show ?thesis by auto
      qed
    qed
  qed
qed

lemma reporting_parseExpr: "reporting_expr (parseExpr lib n)"
proof (induction n)
  case 0
  show ?case by (simp add: reporting_expr_def reporting_def)
next
  case (Suc n)
  show ?case
    unfolding reporting_expr_def
  proof (intro allI reportingI)
    fix prec p r p' assume run: "parseExpr lib (Suc n) prec p = Some (r, p')"
    show "length (errs p) \<le> length (errs p') \<and> (length (errs p') = length (errs p) \<longrightarrow> filled r)"
    proof (cases "prefixParsers lib (parseExpr lib n) n (Typ (cur p))")
      case None
      with run show ?thesis by (auto simp: noParsePrefixFnError_def)
    next
      case (Some prefixFn)
      with run obtain l1 p1 p2 where f: "prefixFn p = Some (l1, p1)"
        and l: "parseExpr_loop lib (parseExpr lib n) n prec l1 p1 = Some (r, p2)"
        and p': "errs p' = errs p2"
        by (auto split: Option.bind_splits if_splits)
      from reportingD [OF reporting_prefixParsers [OF Suc.IH Some] f]
        reportingD [OF reporting_parseExpr_loop [OF Suc.IH] l] p'
      show ?thesis by auto
    qed
  qed
qed

lemma reporting_parse_loop:
  "reporting (\<lambda>r. list_all populated block \<longrightarrow> populated r) (parse_loop lib m n block)"
proof (induction n arbitrary: block)
  case 0
  show ?case by (simp add: reporting_def)
next
  case (Suc n)
  show ?case
  proof (rule reportingI)
    fix p r p' assume run: "parse_loop lib m (Suc n) block p = Some (r, p')"
    show "length (errs p) \<le> length (errs p') \<and>
          (length (errs p') = length (errs p) \<longrightarrow> list_all populated block \<longrightarrow> populated r)"
    proof (cases "Is (cur p) item_EOF")
      case True
      with run show ?thesis by auto
    next
      case False
      with run obtain s p1 where s: "parseStatement (parseExpr lib m) p = Some (s, p1)"
        and rest: "parse_loop lib m n (case s of None \<Rightarrow> block | Some st \<Rightarrow> block @ [st]) (next p1) = Some (r, p')"
        by (auto split: Option.bind_splits)
      note S = reportingD [OF reporting_parseStatement [OF reporting_parseExpr] s]
      note R = reportingD [OF Suc.IH rest]
      have "filled s \<Longrightarrow> list_all populated block \<Longrightarrow>
            list_all populated (case s of None \<Rightarrow> block | Some st \<Rightarrow> block @ [st])"
        by (cases s) auto
      with S R show ?thesis by auto
    qed
  qed
qed

text \<open>
  C8, amended. If the error list after \<open>Parse\<close> is empty, the tree is populated: every
  slot for a node holds a node, the optional else slot aside, and no list element is nil.
  If \<open>parseExpr\<close> or \<open>parseStatement\<close> returns nil, an error has been appended. If
  \<open>parseNodeList\<close> or \<open>parseFunctionParams\<close> returns a nil list, then either the list was
  empty (the peek token was the closing one) or an error has been appended.
\<close>

theorem no_error_no_nil_node:
  "(Parse lib n input = Some (prog, []) \<longrightarrow> populated prog)
   \<and> (parseExpr lib n prec p = Some (None, p') \<longrightarrow> length (errs p) < length (errs p'))
   \<and> (parseStatement (parseExpr lib n) p = Some (None, p') \<longrightarrow> length (errs p) < length (errs p'))
   \<and> (parseNodeList lib (parseExpr lib n) m end p = Some (None, p') \<longrightarrow>
         Is (peek p) end \<or> length (errs p) < length (errs p'))
   \<and> (parseFunctionParams lib m p = Some (None, p') \<longrightarrow>
         Is (peek p) item_RPAREN \<or> length (errs p) < length (errs p'))"
proof (intro conjI impI)
  assume "Parse lib n input = Some (prog, [])"
  then obtain q where q: "parse_loop lib n n [] (newParser input) = Some (prog, q)" and e: "errs q = []"
    by (auto simp: Parse_def parse_def errors_def split: Option.bind_splits)
  have "errs (newParser input) = []"
    by (simp add: newParser_def split: prod.splits)
  with reportingD(2) [OF reporting_parse_loop q] e show "populated prog" by simp
next
  assume a: "parseExpr lib n prec p = Some (None, p')"
  from reporting_exprD [OF reporting_parseExpr a]
  show "length (errs p) < length (errs p')" by (cases "length (errs p') = length (errs p)") auto
next
  assume a: "parseStatement (parseExpr lib n) p = Some (None, p')"
  from reportingD [OF reporting_parseStatement [OF reporting_parseExpr] a]
  show "length (errs p) < length (errs p')" by (cases "length (errs p') = length (errs p)") auto
next
  assume a: "parseNodeList lib (parseExpr lib n) m end p = Some (None, p')"
  show "Is (peek p) end \<or> length (errs p) < length (errs p')"
  proof (cases "Is (peek p) end")
    case False
    with a obtain e p1 list p2 ok where e: "parseExpr lib n LOWEST (next p) = Some (e, p1)"
      and l: "parseNodeList_loop (parseExpr lib n) m [e] p1 = Some (list, p2)"
      and x: "expectPeek lib end p2 = (ok, p')" and ok: "\<not> ok"
      by (auto simp: parseNodeList_def split: Option.bind_splits prod.splits bool.splits)
    from reporting_exprD(1) [OF reporting_parseExpr e]
      reportingD(1) [OF reporting_parseNodeList_loop [OF reporting_parseExpr] l]
      expectPeek_errs [OF x] ok
    show ?thesis by auto
  qed simp
next
  assume a: "parseFunctionParams lib m p = Some (None, p')"
  show "Is (peek p) item_RPAREN \<or> length (errs p) < length (errs p')"
  proof (cases "Is (peek p) item_RPAREN")
    case False
    with a obtain ret p2 ok where
      l: "parseFunctionParams_loop m [Val (cur (next p))] (next p) = Some (ret, p2)"
      and x: "expectPeek lib item_RPAREN p2 = (ok, p')" and ok: "\<not> ok"
      by (auto simp: parseFunctionParams_def Let_def split: Option.bind_splits prod.splits bool.splits)
    from errs_parseFunctionParams_loop [OF l] expectPeek_errs [OF x] ok
    show ?thesis by auto
  qed simp
qed

text \<open>
  C8, as stated, fails: \<open>f()\<close> and \<open>fn() {}\<close> parse without an error, and the argument
  list of the call and the parameter list of the function are nil, as \<open>parseNodeList\<close>
  and \<open>parseFunctionParams\<close> return the slice they never appended to; \<open>if a {}\<close>
  parses without an error and its else slot is nil.
\<close>

theorem empty_argument_list_is_nil:
  "Parse sample_stdlib 3 [ident ''f'', tok item_LPAREN, tok item_RPAREN, tok item_EOF]
     = Some (ast_Block [ast_NewCall (Some (ast_NewIdentifier ''f'')) None], [])
   \<and> Parse sample_stdlib 3
       [tok item_FUNCTION, tok item_LPAREN, tok item_RPAREN, tok item_LBRACE, tok item_RBRACE, tok item_EOF]
     = Some (ast_Block [ast_NewFunction None (Some (ast_Block []))], [])
   \<and> Parse sample_stdlib 3
       [tok item_IF, ident ''a'', tok item_LBRACE, tok item_RBRACE, tok item_EOF]
     = Some (ast_Block
              [ast_NewIfExpr (Some (ast_NewIdentifier ''a'')) (Some (ast_Block [])) None], [])"
proof -
  have 3: "(3::nat) = Suc (Suc (Suc 0))" by simp
  show ?thesis unfolding 3 by (simp add: parser_run sample_stdlib_def)
qed

theorem no_error_no_nil_node_witness:
  "Parse sample_stdlib 3 [ident ''a'', tok item_PLUS, ident ''b'', tok item_EOF]
     = Some (ast_Block [ast_NewPlus (Some (ast_NewIdentifier ''a'')) (Some (ast_NewIdentifier ''b''))], [])
   \<and> populated (ast_Block [ast_NewPlus (Some (ast_NewIdentifier ''a'')) (Some (ast_NewIdentifier ''b''))])
   \<and> parseExpr sample_stdlib 1 LOWEST (newParser [tok item_RPAREN])
     = Some (None, noParsePrefixFnError sample_stdlib item_RPAREN (newParser [tok item_RPAREN]))
   \<and> length (errs (newParser [tok item_RPAREN]))
       < length (errs (noParsePrefixFnError sample_stdlib item_RPAREN (newParser [tok item_RPAREN])))"
proof -
  have 3: "(3::nat) = Suc (Suc (Suc 0))" by simp
  have a: "Parse sample_stdlib 3 [ident ''a'', tok item_PLUS, ident ''b'', tok item_EOF]
     = Some (ast_Block [ast_NewPlus (Some (ast_NewIdentifier ''a'')) (Some (ast_NewIdentifier ''b''))], [])"
    unfolding 3 by (simp add: parser_run sample_stdlib_def)
  have b: "parseExpr sample_stdlib 1 LOWEST (newParser [tok item_RPAREN])
     = Some (None, noParsePrefixFnError sample_stdlib item_RPAREN (newParser [tok item_RPAREN]))"
    by (simp add: prefixParsers_def newParser_def recv_def tok_def)
  note T = no_error_no_nil_node [of sample_stdlib 3
      "[ident ''a'', tok item_PLUS, ident ''b'', tok item_EOF]"
      "ast_Block [ast_NewPlus (Some (ast_NewIdentifier ''a'')) (Some (ast_NewIdentifier ''b''))]"]
  note U = no_error_no_nil_node [of sample_stdlib 1 _ _ LOWEST "newParser [tok item_RPAREN]"
      "noParsePrefixFnError sample_stdlib item_RPAREN (newParser [tok item_RPAREN])"]
  from T a have c: "populated (ast_Block [ast_NewPlus (Some (ast_NewIdentifier ''a'')) (Some (ast_NewIdentifier ''b''))])"
    by blast
  from U b have d: "length (errs (newParser [tok item_RPAREN]))
       < length (errs (noParsePrefixFnError sample_stdlib item_RPAREN (newParser [tok item_RPAREN])))"
    by blast
  from a b c d show ?thesis by blast
qed

section \<open>Termination of the parser\<close>

subsection \<open>Every parse function returns\<close>

lemma pending_le_length: "pending xs \<le> length xs"
  by (induction xs) auto

lemma remaining_next: "remaining (next p) = remaining p - 1"
  by (cases "items p") (auto simp: remaining_def next_def recv_def)

lemma remaining_errs [simp]: "remaining (p\<lparr>errs := es\<rparr>) = remaining p"
  by (simp add: remaining_def)

lemma cur_not_EOF: "Typ (cur p) \<noteq> item_EOF \<Longrightarrow> 0 < remaining p"
  by (simp add: remaining_def)

lemma peek_not_EOF: "Typ (peek p) \<noteq> item_EOF \<Longrightarrow> 1 < remaining p"
  by (simp add: remaining_def)

lemma cur_next [simp]: "cur (next p) = peek p"
  by (simp add: next_def split: prod.splits)

lemma returnsI:
  "f p = Some (r, p') \<Longrightarrow> remaining p' \<le> remaining p \<Longrightarrow> returns f p"
  unfolding returns_def by blast

lemma returnsE:
  assumes "returns f p"
  obtains r p' where "f p = Some (r, p')" and "remaining p' \<le> remaining p"
  using assms unfolding returns_def by blast

lemma total_belowD:
  "total_below m pe \<Longrightarrow> remaining p < m \<Longrightarrow> returns (pe prec) p"
  unfolding total_below_def by blast

lemma total_belowE:
  assumes "total_below m pe" and "remaining p < m"
  obtains r p' where "pe prec p = Some (r, p')" and "remaining p' \<le> remaining p"
  using assms unfolding total_below_def returns_def by blast

lemma total_below_mono: "total_below m pe \<Longrightarrow> k \<le> m \<Longrightarrow> total_below k pe"
  unfolding total_below_def by auto

lemma expectPeek_remaining:
  assumes "expectPeek lib t p = (ok, p')"
  shows "remaining p' \<le> remaining p"
    and "ok \<Longrightarrow> t \<noteq> item_EOF \<Longrightarrow> Typ (cur p') = t \<and> remaining p' < remaining p"
  using assms peek_not_EOF [of p]
  by (auto simp: expectPeek_def peekError_def remaining_next Is_def split: if_splits)

lemma returns_parseReturn:
  assumes "total_below (remaining p) pe" and "Typ (cur p) \<noteq> item_EOF"
  shows "returns (parseReturn pe) p"
proof -
  have lt: "remaining (next p) < remaining p"
    using cur_not_EOF [OF assms(2)] by (simp add: remaining_next)
  obtain e p1 where
    e: "pe LOWEST (next p) = Some (e, p1)" and r: "remaining p1 \<le> remaining (next p)"
    by (rule total_belowE [OF assms(1) lt])
  show ?thesis
    by (rule returnsI [where p'="if Is (peek p1) item_SEMICOLON then next p1 else p1"])
       (use e r in \<open>auto simp: parseReturn_def remaining_next\<close>)
qed

lemma returns_parseStatement:
  assumes "total_below (Suc (remaining p)) pe"
  shows "returns (parseStatement pe) p"
proof (cases "Is (cur p) item_RETURN")
  case True
  then have "Typ (cur p) \<noteq> item_EOF" by (simp add: Is_def)
  from returns_parseReturn [OF total_below_mono [OF assms] this] True
  show ?thesis by (simp add: parseStatement_def returns_def)
next
  case False
  with total_belowD [OF assms, of p LOWEST] show ?thesis
    by (simp add: parseStatement_def returns_def)
qed

lemma returns_parseGroupedExpr:
  assumes "total_below (remaining p) pe" and "Typ (cur p) \<noteq> item_EOF"
  shows "returns (parseGroupedExpr lib pe) p"
proof -
  have lt: "remaining (next p) < remaining p"
    using cur_not_EOF [OF assms(2)] by (simp add: remaining_next)
  obtain e p1 where
    e: "pe LOWEST (next p) = Some (e, p1)" and r: "remaining p1 \<le> remaining (next p)"
    by (rule total_belowE [OF assms(1) lt])
  obtain ok p2 where x: "expectPeek lib item_RPAREN p1 = (ok, p2)"
    by (cases "expectPeek lib item_RPAREN p1")
  show ?thesis
    by (rule returnsI [where p'=p2 and r="if ok then e else None"])
       (use e r x expectPeek_remaining(1) [OF x] in \<open>auto simp: parseGroupedExpr_def remaining_next\<close>)
qed

lemma returns_parsePrefixMinus:
  assumes "total_below (remaining p) pe" and "Typ (cur p) \<noteq> item_EOF"
  shows "returns (parsePrefixMinus pe) p"
proof -
  have lt: "remaining (next p) < remaining p"
    using cur_not_EOF [OF assms(2)] by (simp add: remaining_next)
  obtain e p1 where
    e: "pe PREFIX (next p) = Some (e, p1)" and r: "remaining p1 \<le> remaining (next p)"
    by (rule total_belowE [OF assms(1) lt])
  show ?thesis
    by (rule returnsI [where p'=p1]) (use e r in \<open>auto simp: parsePrefixMinus_def remaining_next\<close>)
qed

lemma returns_parseBang:
  assumes "total_below (remaining p) pe" and "Typ (cur p) \<noteq> item_EOF"
  shows "returns (parseBang pe) p"
proof -
  have lt: "remaining (next p) < remaining p"
    using cur_not_EOF [OF assms(2)] by (simp add: remaining_next)
  obtain e p1 where
    e: "pe PREFIX (next p) = Some (e, p1)" and r: "remaining p1 \<le> remaining (next p)"
    by (rule total_belowE [OF assms(1) lt])
  show ?thesis
    by (rule returnsI [where p'=p1]) (use e r in \<open>auto simp: parseBang_def remaining_next\<close>)
qed

lemma returns_parseBinary:
  assumes "total_below (remaining p) pe" and "Typ (cur p) \<noteq> item_EOF"
  shows "returns (parseBinary new pe left) p"
proof -
  have lt: "remaining (next p) < remaining p"
    using cur_not_EOF [OF assms(2)] by (simp add: remaining_next)
  obtain e p1 where
    e: "pe (precedence p) (next p) = Some (e, p1)" and r: "remaining p1 \<le> remaining (next p)"
    by (rule total_belowE [OF assms(1) lt])
  show ?thesis
    by (rule returnsI [where p'=p1]) (use e r in \<open>auto simp: parseBinary_def remaining_next\<close>)
qed

lemma returns_parseIndex:
  assumes "total_below (remaining p) pe" and "Typ (cur p) \<noteq> item_EOF"
  shows "returns (parseIndex lib pe list) p"
proof -
  have lt: "remaining (next p) < remaining p"
    using cur_not_EOF [OF assms(2)] by (simp add: remaining_next)
  obtain e p1 where
    e: "pe LOWEST (next p) = Some (e, p1)" and r: "remaining p1 \<le> remaining (next p)"
    by (rule total_belowE [OF assms(1) lt])
  obtain ok p2 where x: "expectPeek lib item_RBRACKET p1 = (ok, p2)"
    by (cases "expectPeek lib item_RBRACKET p1")
  show ?thesis
    by (rule returnsI [where p'=p2 and r="if ok then Some (ast_NewIndex list e) else None"])
       (use e r x expectPeek_remaining(1) [OF x] in \<open>auto simp: parseIndex_def remaining_next\<close>)
qed

lemma returns_parseBlock_loop:
  "total_below (Suc (remaining p)) pe \<Longrightarrow> remaining p < n \<Longrightarrow>
   returns (parseBlock_loop pe n block) p"
proof (induction n arbitrary: block p)
  case 0
  then show ?case by simp
next
  case (Suc n)
  show ?case
  proof (cases "\<not> Is (cur p) item_RBRACE \<and> \<not> Is (cur p) item_EOF")
    case False
    then show ?thesis by (auto simp: returns_def)
  next
    case True
    then have pos: "0 < remaining p" by (auto simp: Is_def intro: cur_not_EOF)
    from returns_parseStatement [OF Suc.prems(1)] obtain s p1 where
      s: "parseStatement pe p = Some (s, p1)" and r: "remaining p1 \<le> remaining p"
      by (elim returnsE)
    have lt: "remaining (next p1) < remaining p"
      using pos r by (simp add: remaining_next)
    have "returns (parseBlock_loop pe n (case s of None \<Rightarrow> block | Some st \<Rightarrow> block @ [st])) (next p1)"
      using lt Suc.prems by (intro Suc.IH total_below_mono [OF Suc.prems(1)]) auto
    then obtain b p' where
      b: "parseBlock_loop pe n (case s of None \<Rightarrow> block | Some st \<Rightarrow> block @ [st]) (next p1) = Some (b, p')"
      and r': "remaining p' \<le> remaining (next p1)"
      by (elim returnsE)
    show ?thesis
      by (rule returnsI [where p'=p' and r=b]) (use True s b r' lt in auto)
  qed
qed

lemma returns_parseBlock:
  assumes "total_below (remaining p) pe" and "Typ (cur p) \<noteq> item_EOF" and "remaining p \<le> n"
  shows "returns (parseBlock pe n) p"
proof -
  have lt: "remaining (next p) < remaining p"
    using cur_not_EOF [OF assms(2)] by (simp add: remaining_next)
  have "returns (parseBlock_loop pe n []) (next p)"
    using lt assms(3) by (intro returns_parseBlock_loop total_below_mono [OF assms(1)]) auto
  then show ?thesis
    using lt by (auto simp: returns_def parseBlock_def)
qed


lemma returns_parseIfExpr:
  "total_below (remaining p) pe \<Longrightarrow> Typ (cur p) \<noteq> item_EOF \<Longrightarrow> remaining p \<le> n \<Longrightarrow>
   returns (parseIfExpr lib pe n) p"
proof (induction n arbitrary: p)
  case 0
  with cur_not_EOF [of p] show ?case by simp
next
  case (Suc n)
  note tb = Suc.prems(1)
  have lt: "remaining (next p) < remaining p"
    using cur_not_EOF [OF Suc.prems(2)] by (simp add: remaining_next)
  obtain cond p1 where c: "pe LOWEST (next p) = Some (cond, p1)"
    and r1: "remaining p1 \<le> remaining (next p)"
    by (rule total_belowE [OF tb lt])
  obtain ok p2 where x: "expectPeek lib item_LBRACE p1 = (ok, p2)"
    by (cases "expectPeek lib item_LBRACE p1")
  note X = expectPeek_remaining [OF x]
  show ?case
  proof (cases ok)
    case False
    show ?thesis
      by (rule returnsI [where p'=p2 and r=None]) (use False c x X(1) r1 lt in auto)
  next
    case True
    with X(2) have cur2: "Typ (cur p2) = item_LBRACE" and r2: "remaining p2 < remaining p1"
      by auto
    have "returns (parseBlock pe n) p2"
      using cur2 r2 r1 lt Suc.prems(3) by (intro returns_parseBlock total_below_mono [OF tb]) auto
    then obtain body p3 where b: "parseBlock pe n p2 = Some (body, p3)"
      and r3: "remaining p3 \<le> remaining p2"
      by (elim returnsE)
    show ?thesis
    proof (cases "Is (peek p3) item_ELSE")
      case False
      show ?thesis
        by (rule returnsI [where p'=p3 and r="Some (ast_NewIfExpr cond body None)"])
           (use False \<open>ok\<close> c x b r3 r2 r1 lt in auto)
    next
      case else: True
      show ?thesis
      proof (cases "Is (peek (next p3)) item_IF")
        case True
        have "returns (parseIfExpr lib pe n) (next (next p3))"
          using True r3 r2 r1 lt Suc.prems(3)
          by (intro Suc.IH total_below_mono [OF tb]) (auto simp: remaining_next Is_def)
        then obtain alt p5 where a: "parseIfExpr lib pe n (next (next p3)) = Some (alt, p5)"
          and r5: "remaining p5 \<le> remaining (next (next p3))"
          by (elim returnsE)
        show ?thesis
          by (rule returnsI [where p'=p5 and r="Some (ast_NewIfExpr cond body alt)"])
             (use True else \<open>ok\<close> c x b a r5 r3 r2 r1 lt in \<open>auto simp: remaining_next Let_def\<close>)
      next
        case False
        obtain ok5 p5 where y: "expectPeek lib item_LBRACE (next p3) = (ok5, p5)"
          by (cases "expectPeek lib item_LBRACE (next p3)")
        note Y = expectPeek_remaining [OF y]
        show ?thesis
        proof (cases ok5)
          case False
          show ?thesis
            by (rule returnsI [where p'=p5 and r=None])
               (use False \<open>\<not> Is (peek (next p3)) item_IF\<close> else \<open>ok\<close> c x b y Y(1) r3 r2 r1 lt
                 in \<open>auto simp: remaining_next Let_def\<close>)
        next
          case True
          with Y(2) have cur5: "Typ (cur p5) = item_LBRACE" and r5: "remaining p5 < remaining (next p3)"
            by auto
          have "returns (parseBlock pe n) p5"
            using cur5 r5 r3 r2 r1 lt Suc.prems(3)
            by (intro returns_parseBlock total_below_mono [OF tb]) (auto simp: remaining_next)
          then obtain alt p6 where a: "parseBlock pe n p5 = Some (alt, p6)"
            and r6: "remaining p6 \<le> remaining p5"
            by (elim returnsE)
          show ?thesis
            by (rule returnsI [where p'=p6 and r="Some (ast_NewIfExpr cond body alt)"])
               (use True \<open>\<not> Is (peek (next p3)) item_IF\<close> else \<open>ok\<close> c x b y a r6 r5 r3 r2 r1 lt
                 in \<open>auto simp: remaining_next Let_def\<close>)
        qed
      qed
    qed
  qed
qed

lemma returns_parseFunctionParams_loop:
  "remaining p < n \<Longrightarrow> returns (parseFunctionParams_loop n ret) p"
proof (induction n arbitrary: ret p)
  case 0
  then show ?case by simp
next
  case (Suc n)
  show ?case
  proof (cases "Is (peek p) item_COMMA")
    case False
    then show ?thesis by (auto simp: returns_def)
  next
    case True
    then have "1 < remaining p" using peek_not_EOF [of p] by (auto simp: Is_def)
    with Suc.prems have "remaining (next (next p)) < n" by (simp add: remaining_next)
    from Suc.IH [OF this, of "ret @ [Val (cur (next (next p)))]"] True
    show ?thesis by (auto simp: returns_def Let_def remaining_next)
  qed
qed

lemma returns_parseFunctionParams:
  assumes "remaining p < n"
  shows "returns (parseFunctionParams lib n) p"
proof (cases "Is (peek p) item_RPAREN")
  case True
  then show ?thesis by (auto simp: returns_def parseFunctionParams_def remaining_next)
next
  case False
  have "remaining (next p) < n" using assms by (simp add: remaining_next)
  from returns_parseFunctionParams_loop [OF this, of "[Val (cur (next p))]"]
  obtain ret p2 where l: "parseFunctionParams_loop n [Val (cur (next p))] (next p) = Some (ret, p2)"
    and r2: "remaining p2 \<le> remaining (next p)"
    by (elim returnsE)
  obtain ok p3 where x: "expectPeek lib item_RPAREN p2 = (ok, p3)"
    by (cases "expectPeek lib item_RPAREN p2")
  show ?thesis
    by (rule returnsI [where p'=p3 and r="if ok then Some ret else None"])
       (use False l r2 x expectPeek_remaining(1) [OF x]
         in \<open>auto simp: parseFunctionParams_def Let_def remaining_next\<close>)
qed

lemma returns_parseFunction:
  assumes "total_below (remaining p) pe" and "remaining p < n"
  shows "returns (parseFunction lib pe n) p"
proof -
  obtain ok1 p1 where x: "expectPeek lib item_LPAREN p = (ok1, p1)"
    by (cases "expectPeek lib item_LPAREN p")
  note X = expectPeek_remaining [OF x]
  show ?thesis
  proof (cases ok1)
    case False
    show ?thesis
      by (rule returnsI [where p'=p1 and r=None]) (use False x X(1) in \<open>auto simp: parseFunction_def\<close>)
  next
    case True
    have "returns (parseFunctionParams lib n) p1"
      using X(1) assms(2) by (intro returns_parseFunctionParams) auto
    then obtain params p2 where ps: "parseFunctionParams lib n p1 = Some (params, p2)"
      and r2: "remaining p2 \<le> remaining p1"
      by (elim returnsE)
    obtain ok3 p3 where y: "expectPeek lib item_LBRACE p2 = (ok3, p3)"
      by (cases "expectPeek lib item_LBRACE p2")
    note Y = expectPeek_remaining [OF y]
    show ?thesis
    proof (cases ok3)
      case False
      show ?thesis
        by (rule returnsI [where p'=p3 and r=None])
           (use False \<open>ok1\<close> x ps y X(1) Y(1) r2 in \<open>auto simp: parseFunction_def\<close>)
    next
      case True
      with Y(2) have cur3: "Typ (cur p3) = item_LBRACE" and r3: "remaining p3 < remaining p2"
        by auto
      have "returns (parseBlock pe n) p3"
        using cur3 r3 r2 X(1) assms(2) by (intro returns_parseBlock total_below_mono [OF assms(1)]) auto
      then obtain body p4 where b: "parseBlock pe n p3 = Some (body, p4)"
        and r4: "remaining p4 \<le> remaining p3"
        by (elim returnsE)
      show ?thesis
        by (rule returnsI [where p'=p4 and r="Some (ast_NewFunction params body)"])
           (use True \<open>ok1\<close> x ps y b r4 r3 r2 X(1) in \<open>auto simp: parseFunction_def\<close>)
    qed
  qed
qed

lemma returns_parseNodeList_loop:
  "total_below (remaining p) pe \<Longrightarrow> remaining p < n \<Longrightarrow>
   returns (parseNodeList_loop pe n list) p"
proof (induction n arbitrary: list p)
  case 0
  then show ?case by simp
next
  case (Suc n)
  show ?case
  proof (cases "Is (peek p) item_COMMA")
    case False
    then show ?thesis by (auto simp: returns_def)
  next
    case True
    then have big: "1 < remaining p" using peek_not_EOF [of p] by (auto simp: Is_def)
    then have lt: "remaining (next (next p)) < remaining p" by (simp add: remaining_next)
    obtain e p1 where e: "pe LOWEST (next (next p)) = Some (e, p1)"
      and r1: "remaining p1 \<le> remaining (next (next p))"
      by (rule total_belowE [OF Suc.prems(1) lt])
    have "returns (parseNodeList_loop pe n (list @ [e])) p1"
      using r1 lt Suc.prems(2) by (intro Suc.IH total_below_mono [OF Suc.prems(1)]) auto
    then obtain l p2 where l: "parseNodeList_loop pe n (list @ [e]) p1 = Some (l, p2)"
      and r2: "remaining p2 \<le> remaining p1"
      by (elim returnsE)
    show ?thesis
      by (rule returnsI [where p'=p2 and r=l]) (use True e l r2 r1 lt in auto)
  qed
qed

lemma returns_parseNodeList:
  assumes "total_below (remaining p) pe" and "Typ (cur p) \<noteq> item_EOF" and "remaining p < n"
  shows "returns (parseNodeList lib pe n end) p"
proof (cases "Is (peek p) end")
  case True
  then show ?thesis by (auto simp: returns_def parseNodeList_def remaining_next)
next
  case False
  have lt: "remaining (next p) < remaining p"
    using cur_not_EOF [OF assms(2)] by (simp add: remaining_next)
  obtain e p1 where e: "pe LOWEST (next p) = Some (e, p1)"
    and r1: "remaining p1 \<le> remaining (next p)"
    by (rule total_belowE [OF assms(1) lt])
  have "returns (parseNodeList_loop pe n [e]) p1"
    using r1 lt assms(3) by (intro returns_parseNodeList_loop total_below_mono [OF assms(1)]) auto
  then obtain l p2 where l: "parseNodeList_loop pe n [e] p1 = Some (l, p2)"
    and r2: "remaining p2 \<le> remaining p1"
    by (elim returnsE)
  obtain ok p3 where x: "expectPeek lib end p2 = (ok, p3)"
    by (cases "expectPeek lib end p2")
  show ?thesis
    by (rule returnsI [where p'=p3 and r="if ok then Some l else None"])
       (use False e l x r2 r1 lt expectPeek_remaining(1) [OF x] in \<open>auto simp: parseNodeList_def\<close>)
qed

lemma returns_parseList:
  assumes "total_below (remaining p) pe" and "Typ (cur p) \<noteq> item_EOF" and "remaining p < n"
  shows "returns (parseList lib pe n) p"
  using returns_parseNodeList [OF assms, of lib item_RBRACKET]
  by (auto simp: returns_def parseList_def)

lemma returns_parseCall:
  assumes "total_below (remaining p) pe" and "Typ (cur p) \<noteq> item_EOF" and "remaining p < n"
  shows "returns (parseCall lib pe n fn) p"
  using returns_parseNodeList [OF assms, of lib item_RPAREN]
  by (auto simp: returns_def parseCall_def)

lemma returns_leaves:
  "returns parseIdentifier p" "returns (parseInteger lib) p" "returns (parseFloat lib) p"
  "returns parseString p" "returns parseBoolean p"
  by (auto simp: returns_def parseIdentifier_def parseInteger_def parseFloat_def
      parseString_def parseBoolean_def split: option.splits)

lemma prefixParsers_not_EOF: "prefixParsers lib pe n item_EOF = None"
  by (simp add: prefixParsers_def)

lemma infixParsers_not_EOF: "infixParsers lib pe n item_EOF = None"
  by (simp add: infixParsers_def)

lemma returns_prefixParsers:
  assumes "prefixParsers lib pe n (Typ (cur p)) = Some prefixFn"
    and "total_below (remaining p) pe" and "remaining p < n"
  shows "returns prefixFn p"
proof -
  have ne: "Typ (cur p) \<noteq> item_EOF"
    using assms(1) prefixParsers_not_EOF [of lib pe n] by auto
  have le: "remaining p \<le> n" using assms(3) by simp
  show ?thesis
    using assms(1)
    by (auto simp: prefixParsers_def split: if_splits
        intro!: returns_leaves returns_parsePrefixMinus [OF assms(2) ne]
          returns_parseBang [OF assms(2) ne] returns_parseGroupedExpr [OF assms(2) ne]
          returns_parseIfExpr [OF assms(2) ne le] returns_parseFunction [OF assms(2,3)]
          returns_parseList [OF assms(2) ne assms(3)])
qed

lemma returns_infixParsers:
  assumes "infixParsers lib pe n (Typ (cur p)) = Some infixFn"
    and "total_below (remaining p) pe" and "remaining p < n"
  shows "returns (infixFn left) p"
proof -
  have ne: "Typ (cur p) \<noteq> item_EOF"
    using assms(1) infixParsers_not_EOF [of lib pe n] by auto
  show ?thesis
    using assms(1)
    by (auto simp: infixParsers_def binary_parsers split: if_splits
        intro!: returns_parseBinary [OF assms(2) ne] returns_parseIndex [OF assms(2) ne]
          returns_parseCall [OF assms(2) ne assms(3)])
qed

lemma returns_parseExpr_loop:
  "total_below (remaining p) pe \<Longrightarrow> remaining p < n \<Longrightarrow>
   returns (parseExpr_loop lib pe n prec leftExp) p"
proof (induction n arbitrary: leftExp p)
  case 0
  then show ?case by simp
next
  case (Suc n)
  show ?case
  proof (cases "\<not> Is (peek p) item_SEMICOLON \<and> prec < peekPrecedence p")
    case False
    then show ?thesis by (auto simp: returns_def)
  next
    case True
    show ?thesis
    proof (cases "infixParsers lib pe n (Typ (peek p))")
      case None
      with True show ?thesis by (auto simp: returns_def)
    next
      case (Some infixFn)
      then have "Typ (peek p) \<noteq> item_EOF"
        using infixParsers_not_EOF [of lib pe n] by auto
      then have big: "1 < remaining p" by (rule peek_not_EOF)
      then have lt: "remaining (next p) < remaining p" by (simp add: remaining_next)
      have tb': "total_below (remaining (next p)) pe"
        using lt by (intro total_below_mono [OF Suc.prems(1)]) simp
      have c: "infixParsers lib pe n (Typ (cur (next p))) = Some infixFn"
        using Some by simp
      have "returns (infixFn leftExp) (next p)"
        using lt Suc.prems(2) by (intro returns_infixParsers [OF c tb']) auto
      then obtain l1 p1 where i: "infixFn leftExp (next p) = Some (l1, p1)"
        and r1: "remaining p1 \<le> remaining (next p)"
        by (elim returnsE)
      have "returns (parseExpr_loop lib pe n prec l1) p1"
        using r1 lt Suc.prems(2) by (intro Suc.IH total_below_mono [OF Suc.prems(1)]) auto
      then obtain l2 p2 where l: "parseExpr_loop lib pe n prec l1 p1 = Some (l2, p2)"
        and r2: "remaining p2 \<le> remaining p1"
        by (elim returnsE)
      show ?thesis
        by (rule returnsI [where p'=p2 and r=l2]) (use True Some i l r2 r1 lt in auto)
    qed
  qed
qed

lemma returns_parseExpr:
  "remaining p + 2 \<le> n \<Longrightarrow> returns (parseExpr lib n prec) p"
proof (induction n arbitrary: p prec)
  case 0
  then show ?case by simp
next
  case (Suc n)
  then have lt: "remaining p < n" by simp
  have tb: "total_below (remaining p) (parseExpr lib n)"
    unfolding total_below_def using lt by (auto intro!: Suc.IH)
  show ?case
  proof (cases "prefixParsers lib (parseExpr lib n) n (Typ (cur p))")
    case None
    then show ?thesis by (auto simp: returns_def noParsePrefixFnError_def)
  next
    case (Some prefixFn)
    from returns_prefixParsers [OF Some tb lt] obtain l1 p1 where
      f: "prefixFn p = Some (l1, p1)" and r1: "remaining p1 \<le> remaining p"
      by (elim returnsE)
    have "returns (parseExpr_loop lib (parseExpr lib n) n prec l1) p1"
      using r1 lt by (intro returns_parseExpr_loop total_below_mono [OF tb]) auto
    then obtain l2 p2 where l: "parseExpr_loop lib (parseExpr lib n) n prec l1 p1 = Some (l2, p2)"
      and r2: "remaining p2 \<le> remaining p1"
      by (elim returnsE)
    show ?thesis
      by (rule returnsI [where r=l2 and p'="if Is (peek p2) item_SEMICOLON then next p2 else p2"])
         (use Some f l r2 r1 in \<open>auto simp: remaining_next\<close>)
  qed
qed

lemma returns_parse_loop:
  "remaining p + 2 \<le> m \<Longrightarrow> remaining p < n \<Longrightarrow>
   \<exists>stmts p'. parse_loop lib m n block p = Some (ast_Block stmts, p')"
proof (induction n arbitrary: block p)
  case 0
  then show ?case by simp
next
  case (Suc n)
  show ?case
  proof (cases "Is (cur p) item_EOF")
    case True
    then show ?thesis by auto
  next
    case False
    then have pos: "0 < remaining p" by (auto simp: Is_def intro: cur_not_EOF)
    have "total_below (Suc (remaining p)) (parseExpr lib m)"
      unfolding total_below_def using Suc.prems(1) by (auto intro!: returns_parseExpr)
    from returns_parseStatement [OF this] obtain s p1 where
      s: "parseStatement (parseExpr lib m) p = Some (s, p1)" and r1: "remaining p1 \<le> remaining p"
      by (elim returnsE)
    have "\<exists>stmts p'. parse_loop lib m n (case s of None \<Rightarrow> block | Some st \<Rightarrow> block @ [st]) (next p1)
            = Some (ast_Block stmts, p')"
      using pos r1 Suc.prems by (intro Suc.IH) (auto simp: remaining_next)
    with False s show ?thesis by auto
  qed
qed

lemma remaining_newParser: "remaining (newParser input) \<le> length input"
proof -
  have "remaining (newParser input) = pending input"
    by (cases input; cases "tl input") (auto simp: remaining_def newParser_def recv_def)
  then show ?thesis by (simp add: pending_le_length)
qed

subsection \<open>A larger bound does not change a result\<close>

lemma extendsI: "(\<And>p r. f p = Some r \<Longrightarrow> g p = Some r) \<Longrightarrow> extends f g"
  unfolding extends_def by blast

lemma extendsD: "extends f g \<Longrightarrow> f p = Some r \<Longrightarrow> g p = Some r"
  unfolding extends_def by blast

lemma extends_exprD: "extends_expr pe pe' \<Longrightarrow> pe prec p = Some r \<Longrightarrow> pe' prec p = Some r"
  unfolding extends_expr_def extends_def by blast

lemma extends_refl [simp]: "extends f f"
  by (simp add: extends_def)

lemma extends_parseReturn:
  assumes "extends_expr pe pe'"
  shows "extends (parseReturn pe) (parseReturn pe')"
  using assms unfolding extends_def extends_expr_def parseReturn_def
  by (auto split: Option.bind_splits)

lemma extends_parseStatement:
  assumes "extends_expr pe pe'"
  shows "extends (parseStatement pe) (parseStatement pe')"
  using extends_parseReturn [OF assms] assms
  unfolding extends_def extends_expr_def parseStatement_def by auto

lemma extends_parseGroupedExpr:
  assumes "extends_expr pe pe'"
  shows "extends (parseGroupedExpr lib pe) (parseGroupedExpr lib pe')"
  using assms unfolding extends_def extends_expr_def parseGroupedExpr_def
  by (auto split: Option.bind_splits)

lemma extends_parsePrefixMinus:
  assumes "extends_expr pe pe'"
  shows "extends (parsePrefixMinus pe) (parsePrefixMinus pe')"
  using assms unfolding extends_def extends_expr_def parsePrefixMinus_def
  by (auto split: Option.bind_splits)

lemma extends_parseBang:
  assumes "extends_expr pe pe'"
  shows "extends (parseBang pe) (parseBang pe')"
  using assms unfolding extends_def extends_expr_def parseBang_def
  by (auto split: Option.bind_splits)

lemma extends_parseBinary:
  assumes "extends_expr pe pe'"
  shows "extends (parseBinary new pe left) (parseBinary new pe' left)"
  using assms unfolding extends_def extends_expr_def parseBinary_def
  by (auto simp: Let_def split: Option.bind_splits)

lemma extends_parseIndex:
  assumes "extends_expr pe pe'"
  shows "extends (parseIndex lib pe list) (parseIndex lib pe' list)"
  using assms unfolding extends_def extends_expr_def parseIndex_def
  by (auto split: Option.bind_splits)

lemma extends_parseBlock_loop:
  assumes "extends_expr pe pe'"
  shows "n \<le> n' \<Longrightarrow> extends (parseBlock_loop pe n block) (parseBlock_loop pe' n' block)"
proof (induction n arbitrary: n' block)
  case 0
  show ?case by (simp add: extends_def)
next
  case (Suc n)
  then obtain k where n': "n' = Suc k" and k: "n \<le> k" by (cases n') auto
  show ?case
    unfolding n'
  proof (rule extendsI)
    fix p r assume run: "parseBlock_loop pe (Suc n) block p = Some r"
    show "parseBlock_loop pe' (Suc k) block p = Some r"
    proof (cases "\<not> Is (cur p) item_RBRACE \<and> \<not> Is (cur p) item_EOF")
      case False
      with run show ?thesis by auto
    next
      case True
      with run obtain s p1 where s: "parseStatement pe p = Some (s, p1)"
        and rest: "parseBlock_loop pe n (case s of None \<Rightarrow> block | Some st \<Rightarrow> block @ [st]) (next p1) = Some r"
        by (auto split: Option.bind_splits)
      from extendsD [OF extends_parseStatement [OF assms] s] extendsD [OF Suc.IH [OF k] rest] True
      show ?thesis by simp
    qed
  qed
qed

lemma extends_parseBlock:
  assumes "extends_expr pe pe'" and "n \<le> n'"
  shows "extends (parseBlock pe n) (parseBlock pe' n')"
  using extends_parseBlock_loop [OF assms]
  unfolding extends_def parseBlock_def by blast


lemma extends_parseIfExpr:
  assumes "extends_expr pe pe'"
  shows "n \<le> n' \<Longrightarrow> extends (parseIfExpr lib pe n) (parseIfExpr lib pe' n')"
proof (induction n arbitrary: n')
  case 0
  show ?case by (simp add: extends_def)
next
  case (Suc n)
  then obtain k where n': "n' = Suc k" and k: "n \<le> k" by (cases n') auto
  note E = extends_exprD [OF assms]
  note B = extendsD [OF extends_parseBlock [OF assms k]]
  note I = extendsD [OF Suc.IH [OF k]]
  show ?case
    unfolding n'
  proof (rule extendsI)
    fix p r assume run: "parseIfExpr lib pe (Suc n) p = Some r"
    then obtain cond p1 where c: "pe LOWEST (next p) = Some (cond, p1)"
      by (auto split: Option.bind_splits)
    obtain ok p2 where x: "expectPeek lib item_LBRACE p1 = (ok, p2)"
      by (cases "expectPeek lib item_LBRACE p1")
    show "parseIfExpr lib pe' (Suc k) p = Some r"
    proof (cases ok)
      case False
      with run c x E [OF c] show ?thesis by auto
    next
      case True
      with run c x obtain body p3 where b: "parseBlock pe n p2 = Some (body, p3)"
        by (auto split: Option.bind_splits)
      show ?thesis
      proof (cases "Is (peek p3) item_ELSE")
        case False
        with run c x True b E [OF c] B [OF b] show ?thesis by auto
      next
        case else: True
        show ?thesis
        proof (cases "Is (peek (next p3)) item_IF")
          case True
          with run c x \<open>ok\<close> b else obtain alt p5 where
            a: "parseIfExpr lib pe n (next (next p3)) = Some (alt, p5)"
            and r: "r = (Some (ast_NewIfExpr cond body alt), p5)"
            by (auto simp: Let_def split: Option.bind_splits)
          from r True else \<open>ok\<close> x E [OF c] B [OF b] I [OF a] show ?thesis
            by (auto simp: Let_def)
        next
          case False
          obtain ok5 p5 where y: "expectPeek lib item_LBRACE (next p3) = (ok5, p5)"
            by (cases "expectPeek lib item_LBRACE (next p3)")
          show ?thesis
          proof (cases ok5)
            case False
            with run c x \<open>ok\<close> b else \<open>\<not> Is (peek (next p3)) item_IF\<close> y E [OF c] B [OF b]
            show ?thesis by (auto simp: Let_def)
          next
            case True
            with run c x \<open>ok\<close> b else \<open>\<not> Is (peek (next p3)) item_IF\<close> y obtain alt p6 where
              a: "parseBlock pe n p5 = Some (alt, p6)"
              and r: "r = (Some (ast_NewIfExpr cond body alt), p6)"
              by (auto simp: Let_def split: Option.bind_splits)
            from r True \<open>\<not> Is (peek (next p3)) item_IF\<close> else \<open>ok\<close> x y E [OF c] B [OF b] B [OF a]
            show ?thesis by (auto simp: Let_def)
          qed
        qed
      qed
    qed
  qed
qed

lemma extends_parseFunctionParams_loop:
  "n \<le> n' \<Longrightarrow> extends (parseFunctionParams_loop n ret) (parseFunctionParams_loop n' ret)"
proof (induction n arbitrary: n' ret)
  case 0
  show ?case by (simp add: extends_def)
next
  case (Suc n)
  then obtain k where n': "n' = Suc k" and k: "n \<le> k" by (cases n') auto
  show ?case
    unfolding n' using Suc.IH [OF k]
    by (auto simp: extends_def Let_def)
qed

lemma extends_parseFunctionParams:
  assumes "n \<le> n'"
  shows "extends (parseFunctionParams lib n) (parseFunctionParams lib n')"
proof (rule extendsI)
  fix p r assume run: "parseFunctionParams lib n p = Some r"
  show "parseFunctionParams lib n' p = Some r"
  proof (cases "Is (peek p) item_RPAREN")
    case True
    with run show ?thesis by (simp add: parseFunctionParams_def)
  next
    case False
    with run obtain ret p2 where
      l: "parseFunctionParams_loop n [Val (cur (next p))] (next p) = Some (ret, p2)"
      by (auto simp: parseFunctionParams_def Let_def split: Option.bind_splits)
    from extendsD [OF extends_parseFunctionParams_loop [OF assms] l] l run False
    show ?thesis by (auto simp: parseFunctionParams_def Let_def)
  qed
qed

lemma extends_parseFunction:
  assumes "extends_expr pe pe'" and "n \<le> n'"
  shows "extends (parseFunction lib pe n) (parseFunction lib pe' n')"
proof (rule extendsI)
  fix p r assume run: "parseFunction lib pe n p = Some r"
  obtain ok1 p1 where x: "expectPeek lib item_LPAREN p = (ok1, p1)"
    by (cases "expectPeek lib item_LPAREN p")
  show "parseFunction lib pe' n' p = Some r"
  proof (cases ok1)
    case False
    with run x show ?thesis by (auto simp: parseFunction_def)
  next
    case True
    with run x obtain params p2 where ps: "parseFunctionParams lib n p1 = Some (params, p2)"
      by (auto simp: parseFunction_def split: Option.bind_splits)
    note P = extendsD [OF extends_parseFunctionParams [OF assms(2)] ps]
    obtain ok3 p3 where y: "expectPeek lib item_LBRACE p2 = (ok3, p3)"
      by (cases "expectPeek lib item_LBRACE p2")
    show ?thesis
    proof (cases ok3)
      case False
      with run x \<open>ok1\<close> ps y P show ?thesis by (auto simp: parseFunction_def)
    next
      case True
      with run x \<open>ok1\<close> ps y obtain body p4 where b: "parseBlock pe n p3 = Some (body, p4)"
        and r: "r = (Some (ast_NewFunction params body), p4)"
        by (auto simp: parseFunction_def split: Option.bind_splits)
      from r True \<open>ok1\<close> x y P extendsD [OF extends_parseBlock [OF assms] b]
      show ?thesis by (auto simp: parseFunction_def)
    qed
  qed
qed

lemma extends_parseNodeList_loop:
  assumes "extends_expr pe pe'"
  shows "n \<le> n' \<Longrightarrow> extends (parseNodeList_loop pe n list) (parseNodeList_loop pe' n' list)"
proof (induction n arbitrary: n' list)
  case 0
  show ?case by (simp add: extends_def)
next
  case (Suc n)
  then obtain k where n': "n' = Suc k" and k: "n \<le> k" by (cases n') auto
  show ?case
    unfolding n'
  proof (rule extendsI)
    fix p r assume run: "parseNodeList_loop pe (Suc n) list p = Some r"
    show "parseNodeList_loop pe' (Suc k) list p = Some r"
    proof (cases "Is (peek p) item_COMMA")
      case False
      with run show ?thesis by auto
    next
      case True
      with run obtain e p1 where e: "pe LOWEST (next (next p)) = Some (e, p1)"
        and rest: "parseNodeList_loop pe n (list @ [e]) p1 = Some r"
        by (auto split: Option.bind_splits)
      from extends_exprD [OF assms e] extendsD [OF Suc.IH [OF k] rest] True
      show ?thesis by simp
    qed
  qed
qed

lemma extends_parseNodeList:
  assumes "extends_expr pe pe'" and "n \<le> n'"
  shows "extends (parseNodeList lib pe n end) (parseNodeList lib pe' n' end)"
proof (rule extendsI)
  fix p r assume run: "parseNodeList lib pe n end p = Some r"
  show "parseNodeList lib pe' n' end p = Some r"
  proof (cases "Is (peek p) end")
    case True
    with run show ?thesis by (simp add: parseNodeList_def)
  next
    case False
    with run obtain e p1 list p2 where e: "pe LOWEST (next p) = Some (e, p1)"
      and l: "parseNodeList_loop pe n [e] p1 = Some (list, p2)"
      by (auto simp: parseNodeList_def split: Option.bind_splits)
    from extends_exprD [OF assms(1) e] extendsD [OF extends_parseNodeList_loop [OF assms] l]
      e l run False
    show ?thesis by (auto simp: parseNodeList_def)
  qed
qed

lemma extends_parseList:
  assumes "extends_expr pe pe'" and "n \<le> n'"
  shows "extends (parseList lib pe n) (parseList lib pe' n')"
  using extends_parseNodeList [OF assms]
  unfolding extends_def parseList_def by (auto split: Option.bind_splits)

lemma extends_parseCall:
  assumes "extends_expr pe pe'" and "n \<le> n'"
  shows "extends (parseCall lib pe n fn) (parseCall lib pe' n' fn)"
  using extends_parseNodeList [OF assms]
  unfolding extends_def parseCall_def by (auto split: Option.bind_splits)

lemma extends_prefixParsers:
  assumes "extends_expr pe pe'" and "n \<le> n'"
  shows "case prefixParsers lib pe n t of
           None \<Rightarrow> prefixParsers lib pe' n' t = None
         | Some f \<Rightarrow> (\<exists>f'. prefixParsers lib pe' n' t = Some f' \<and> extends f f')"
  using extends_parsePrefixMinus [OF assms(1)] extends_parseBang [OF assms(1)]
    extends_parseGroupedExpr [OF assms(1)] extends_parseIfExpr [OF assms]
    extends_parseFunction [OF assms] extends_parseList [OF assms]
  by (simp add: prefixParsers_def)

lemma extends_infixParsers:
  assumes "extends_expr pe pe'" and "n \<le> n'"
  shows "case infixParsers lib pe n t of
           None \<Rightarrow> infixParsers lib pe' n' t = None
         | Some f \<Rightarrow> (\<exists>f'. infixParsers lib pe' n' t = Some f' \<and> (\<forall>left. extends (f left) (f' left)))"
  using extends_parseBinary [OF assms(1)] extends_parseIndex [OF assms(1)]
    extends_parseCall [OF assms]
  by (simp add: infixParsers_def binary_parsers)

lemma extends_parseExpr_loop:
  assumes "extends_expr pe pe'"
  shows "n \<le> n' \<Longrightarrow>
    extends (parseExpr_loop lib pe n prec leftExp) (parseExpr_loop lib pe' n' prec leftExp)"
proof (induction n arbitrary: n' leftExp)
  case 0
  show ?case by (simp add: extends_def)
next
  case (Suc n)
  then obtain k where n': "n' = Suc k" and k: "n \<le> k" by (cases n') auto
  show ?case
    unfolding n'
  proof (rule extendsI)
    fix p r assume run: "parseExpr_loop lib pe (Suc n) prec leftExp p = Some r"
    show "parseExpr_loop lib pe' (Suc k) prec leftExp p = Some r"
    proof (cases "\<not> Is (peek p) item_SEMICOLON \<and> prec < peekPrecedence p")
      case False
      with run show ?thesis by auto
    next
      case True
      note T = extends_infixParsers [OF assms k, of lib "Typ (peek p)"]
      show ?thesis
      proof (cases "infixParsers lib pe n (Typ (peek p))")
        case None
        with run True T show ?thesis by auto
      next
        case (Some infixFn)
        with T obtain f' where f': "infixParsers lib pe' k (Typ (peek p)) = Some f'"
          and ext: "extends (infixFn leftExp) (f' leftExp)"
          by auto
        from run True Some obtain l1 p1 where i: "infixFn leftExp (next p) = Some (l1, p1)"
          and rest: "parseExpr_loop lib pe n prec l1 p1 = Some r"
          by (auto split: Option.bind_splits)
        from extendsD [OF ext i] extendsD [OF Suc.IH [OF k] rest] True f'
        show ?thesis by simp
      qed
    qed
  qed
qed

lemma extends_parseExpr:
  "n \<le> n' \<Longrightarrow> extends_expr (parseExpr lib n) (parseExpr lib n')"
proof (induction n arbitrary: n')
  case 0
  show ?case by (simp add: extends_expr_def extends_def)
next
  case (Suc n)
  then obtain k where n': "n' = Suc k" and k: "n \<le> k" by (cases n') auto
  note IH = Suc.IH [OF k]
  show ?case
    unfolding n' extends_expr_def
  proof (intro allI extendsI)
    fix prec p r assume run: "parseExpr lib (Suc n) prec p = Some r"
    note T = extends_prefixParsers [OF IH k, of lib "Typ (cur p)"]
    show "parseExpr lib (Suc k) prec p = Some r"
    proof (cases "prefixParsers lib (parseExpr lib n) n (Typ (cur p))")
      case None
      with run T show ?thesis by auto
    next
      case (Some prefixFn)
      with T obtain f' where f': "prefixParsers lib (parseExpr lib k) k (Typ (cur p)) = Some f'"
        and ext: "extends prefixFn f'"
        by auto
      from run Some obtain l1 p1 l2 p2 where f: "prefixFn p = Some (l1, p1)"
        and l: "parseExpr_loop lib (parseExpr lib n) n prec l1 p1 = Some (l2, p2)"
        and r: "r = (l2, if Is (peek p2) item_SEMICOLON then next p2 else p2)"
        by (auto split: Option.bind_splits)
      from extendsD [OF ext f] extendsD [OF extends_parseExpr_loop [OF IH k] l] r f'
      show ?thesis by simp
    qed
  qed
qed

lemma extends_parse_loop:
  assumes "m \<le> m'"
  shows "n \<le> n' \<Longrightarrow> extends (parse_loop lib m n block) (parse_loop lib m' n' block)"
proof (induction n arbitrary: n' block)
  case 0
  show ?case by (simp add: extends_def)
next
  case (Suc n)
  then obtain k where n': "n' = Suc k" and k: "n \<le> k" by (cases n') auto
  show ?case
    unfolding n'
  proof (rule extendsI)
    fix p r assume run: "parse_loop lib m (Suc n) block p = Some r"
    show "parse_loop lib m' (Suc k) block p = Some r"
    proof (cases "Is (cur p) item_EOF")
      case True
      with run show ?thesis by auto
    next
      case False
      with run obtain s p1 where s: "parseStatement (parseExpr lib m) p = Some (s, p1)"
        and rest: "parse_loop lib m n (case s of None \<Rightarrow> block | Some st \<Rightarrow> block @ [st]) (next p1) = Some r"
        by (auto split: Option.bind_splits)
      from extendsD [OF extends_parseStatement [OF extends_parseExpr [OF assms]] s]
        extendsD [OF Suc.IH [OF k] rest] False
      show ?thesis by simp
    qed
  qed
qed

lemma Parse_mono:
  assumes "n \<le> n'" and "Parse lib n input = Some r"
  shows "Parse lib n' input = Some r"
proof -
  from assms(2) obtain prog p where p: "parse_loop lib n n [] (newParser input) = Some (prog, p)"
    and r: "r = (prog, errors p)"
    by (auto simp: Parse_def parse_def split: Option.bind_splits)
  from extendsD [OF extends_parse_loop [OF assms(1) assms(1)] p] r
  show ?thesis by (simp add: Parse_def parse_def)
qed

subsection \<open>The main loop builds the Block of the statements in order\<close>

lemma parse_loop_spec_main_loop:
  "parse_loop lib m n block p = Some (r, p') \<Longrightarrow>
   \<exists>stmts. spec_main_loop lib m p stmts p' \<and> r = ast_Block (block @ stmts) \<and> Is (cur p') item_EOF"
proof (induction n arbitrary: block p)
  case 0
  then show ?case by simp
next
  case (Suc n)
  show ?case
  proof (cases "Is (cur p) item_EOF")
    case True
    with Suc.prems show ?thesis by (auto intro: at_EOF)
  next
    case False
    with Suc.prems obtain s p1 where s: "parseStatement (parseExpr lib m) p = Some (s, p1)"
      and rest: "parse_loop lib m n (case s of None \<Rightarrow> block | Some st \<Rightarrow> block @ [st]) (next p1) = Some (r, p')"
      by (auto split: Option.bind_splits)
    from Suc.IH [OF rest] obtain stmts where
      st: "spec_main_loop lib m (next p1) stmts p'"
      and r: "r = ast_Block ((case s of None \<Rightarrow> block | Some st \<Rightarrow> block @ [st]) @ stmts)"
      and e: "Is (cur p') item_EOF"
      by blast
    show ?thesis
    proof (cases "Is (cur p) item_RETURN")
      case True
      with s obtain x q where x: "parseExpr lib m LOWEST (next p) = Some (x, q)"
        and s': "s = Some (ast_NewReturn x)"
        and p1: "p1 = (if Is (peek q) item_SEMICOLON then next q else q)"
        by (auto simp: parseStatement_def parseReturn_def split: Option.bind_splits)
      from return_statement [OF False True x p1 st] r e s'
      show ?thesis by auto
    next
      case nr: False
      with s have x: "parseExpr lib m LOWEST p = Some (s, p1)"
        by (simp add: parseStatement_def)
      show ?thesis
      proof (cases s)
        case None
        from nil_expression [OF False nr x [unfolded None] st] r e None
        show ?thesis by auto
      next
        case (Some node)
        from expression [OF False nr x [unfolded Some] st] r e Some
        show ?thesis by auto
      qed
    qed
  qed
qed

lemma spec_main_loop_mono:
  "spec_main_loop lib m p stmts p' \<Longrightarrow> m \<le> m' \<Longrightarrow> spec_main_loop lib m' p stmts p'"
proof (induction rule: spec_main_loop.induct)
  case (at_EOF p)
  then show ?case by (auto intro: spec_main_loop.at_EOF)
next
  case (return_statement p e p1 p2 rest p')
  from extends_exprD [OF extends_parseExpr [OF return_statement.prems] return_statement.hyps(3)]
  have "parseExpr lib m' LOWEST (next p) = Some (e, p1)" .
  from spec_main_loop.return_statement [OF return_statement.hyps(1,2) this return_statement.hyps(4)]
    return_statement.IH return_statement.prems
  show ?case by blast
next
  case (expression p s p1 rest p')
  from extends_exprD [OF extends_parseExpr [OF expression.prems] expression.hyps(3)]
  have "parseExpr lib m' LOWEST p = Some (Some s, p1)" .
  from spec_main_loop.expression [OF expression.hyps(1,2) this] expression.IH expression.prems
  show ?case by blast
next
  case (nil_expression p p1 rest p')
  from extends_exprD [OF extends_parseExpr [OF nil_expression.prems] nil_expression.hyps(3)]
  have "parseExpr lib m' LOWEST p = Some (None, p1)" .
  from spec_main_loop.nil_expression [OF nil_expression.hyps(1,2) this] nil_expression.IH
    nil_expression.prems
  show ?case by blast
qed

lemma spec_main_loop_unique:
  "spec_main_loop lib m p stmts q \<Longrightarrow> spec_main_loop lib m p stmts' q' \<Longrightarrow>
   stmts' = stmts \<and> q' = q"
proof (induction arbitrary: stmts' q' rule: spec_main_loop.induct)
  case (at_EOF p)
  from at_EOF.prems at_EOF.hyps show ?case
    by (cases rule: spec_main_loop.cases) auto
next
  case (return_statement p e p1 p2 rest p')
  from return_statement.prems return_statement.hyps(1-4) return_statement.IH show ?case
    by (cases rule: spec_main_loop.cases) auto
next
  case (expression p s p1 rest p')
  from expression.prems expression.hyps(1-3) expression.IH show ?case
    by (cases rule: spec_main_loop.cases) auto
next
  case (nil_expression p p1 rest p')
  from nil_expression.prems nil_expression.hyps(1-3) nil_expression.IH show ?case
    by (cases rule: spec_main_loop.cases) auto
qed

text \<open>
  C7. \<open>Parse\<close> returns for every list of tokens (a receive after the last token yields
  EOF), and what it returns is the Block of the statements of the main loop: there is one
  list of statements, parsed one per iteration up to the first current token EOF (a
  return statement when the current token is \<open>return\<close>, an expression otherwise, nothing
  for a nil result) and kept in their order, such that for every bound of at least the
  number of tokens plus two \<open>Parse\<close> gives the Block of exactly these statements and the
  errors recorded on the way. Whatever the bound, a result of \<open>Parse\<close> is such a Block.
  When the first token is EOF the Block is empty.
\<close>

theorem Parse_returns_Block:
  "(\<exists>stmts p'. Is (cur p') item_EOF \<and>
      (\<forall>n. length input + 2 \<le> n \<longrightarrow>
         spec_main_loop lib n (newParser input) stmts p'
         \<and> (\<forall>ss q. spec_main_loop lib n (newParser input) ss q \<longrightarrow> ss = stmts \<and> q = p')
         \<and> Parse lib n input = Some (ast_Block stmts, errs p')))
   \<and> (\<forall>prog es. Parse lib k input = Some (prog, es) \<longrightarrow>
         (\<exists>stmts p'. spec_main_loop lib k (newParser input) stmts p' \<and> Is (cur p') item_EOF
            \<and> prog = ast_Block stmts \<and> es = errs p'))
   \<and> (Typ (fst (recv input)) = item_EOF \<longrightarrow> Parse lib (Suc n) input = Some (ast_Block [], []))"
proof (intro conjI impI allI)
  let ?n = "length input + 2"
  have "remaining (newParser input) + 2 \<le> ?n" and "remaining (newParser input) < ?n"
    using remaining_newParser [of input] by auto
  from returns_parse_loop [OF this, of lib "[]"]
  obtain ss p' where l: "parse_loop lib ?n ?n [] (newParser input) = Some (ast_Block ss, p')"
    by blast
  from parse_loop_spec_main_loop [OF l] have st: "spec_main_loop lib ?n (newParser input) ss p'"
    and e: "Is (cur p') item_EOF"
    by auto
  from l have P: "Parse lib ?n input = Some (ast_Block ss, errs p')"
    by (simp add: Parse_def parse_def errors_def)
  have "\<forall>n. ?n \<le> n \<longrightarrow>
         spec_main_loop lib n (newParser input) ss p'
         \<and> (\<forall>ss' q. spec_main_loop lib n (newParser input) ss' q \<longrightarrow> ss' = ss \<and> q = p')
         \<and> Parse lib n input = Some (ast_Block ss, errs p')"
  proof (intro allI impI conjI)
    fix n assume n: "?n \<le> n"
    show s: "spec_main_loop lib n (newParser input) ss p'"
      by (rule spec_main_loop_mono [OF st n])
    show "Parse lib n input = Some (ast_Block ss, errs p')"
      by (rule Parse_mono [OF n P])
    fix ss' q assume "spec_main_loop lib n (newParser input) ss' q"
    from spec_main_loop_unique [OF s this] show "ss' = ss" and "q = p'" by simp_all
  qed
  with e show "\<exists>stmts p'. Is (cur p') item_EOF \<and>
      (\<forall>n. ?n \<le> n \<longrightarrow>
         spec_main_loop lib n (newParser input) stmts p'
         \<and> (\<forall>ss q. spec_main_loop lib n (newParser input) ss q \<longrightarrow> ss = stmts \<and> q = p')
         \<and> Parse lib n input = Some (ast_Block stmts, errs p'))"
    by blast
next
  fix prog es assume "Parse lib k input = Some (prog, es)"
  then obtain q where l: "parse_loop lib k k [] (newParser input) = Some (prog, q)"
    and es: "es = errs q"
    by (auto simp: Parse_def parse_def errors_def split: Option.bind_splits)
  from parse_loop_spec_main_loop [OF l] es
  show "\<exists>stmts p'. spec_main_loop lib k (newParser input) stmts p' \<and> Is (cur p') item_EOF
            \<and> prog = ast_Block stmts \<and> es = errs p'"
    by auto
next
  assume "Typ (fst (recv input)) = item_EOF"
  then show "Parse lib (Suc n) input = Some (ast_Block [], [])"
    by (auto simp: Parse_def parse_def newParser_def Is_def errors_def split: prod.splits)
qed

theorem Parse_returns_Block_witness:
  "Parse sample_stdlib 7
      [ident ''a'', tok item_SEMICOLON, tok item_RETURN, ident ''b'', tok item_EOF]
     = Some (ast_Block [ast_NewIdentifier ''a'', ast_NewReturn (Some (ast_NewIdentifier ''b''))], [])
   \<and> Parse sample_stdlib 1000
      [ident ''a'', tok item_SEMICOLON, tok item_RETURN, ident ''b'', tok item_EOF]
     = Some (ast_Block [ast_NewIdentifier ''a'', ast_NewReturn (Some (ast_NewIdentifier ''b''))], [])
   \<and> (\<exists>p'. Is (cur p') item_EOF \<and> spec_main_loop sample_stdlib 7
        (newParser [ident ''a'', tok item_SEMICOLON, tok item_RETURN, ident ''b'', tok item_EOF])
        [ast_NewIdentifier ''a'', ast_NewReturn (Some (ast_NewIdentifier ''b''))] p')
   \<and> Parse sample_stdlib 1 [tok item_EOF] = Some (ast_Block [], [])"
proof -
  let ?toks = "[ident ''a'', tok item_SEMICOLON, tok item_RETURN, ident ''b'', tok item_EOF]"
  let ?block = "ast_Block [ast_NewIdentifier ''a'', ast_NewReturn (Some (ast_NewIdentifier ''b''))]"
  have 7: "(7::nat) = Suc (Suc (Suc (Suc (Suc (Suc (Suc 0))))))" by simp
  have 1: "(1::nat) = Suc 0" by simp
  have a: "Parse sample_stdlib 7 ?toks = Some (?block, [])"
    unfolding 7 by (simp add: parser_run sample_stdlib_def)
  have b: "Typ (fst (recv [tok item_EOF])) = item_EOF" by (simp add: recv_def tok_def)
  have l7: "length ?toks + 2 \<le> (7::nat)" and l1000: "length ?toks + 2 \<le> (1000::nat)"
    by simp_all
  note T = Parse_returns_Block [where input="?toks" and lib=sample_stdlib, THEN conjunct1]
  note U = Parse_returns_Block [where input="[tok item_EOF]" and lib=sample_stdlib and n=0,
      THEN conjunct2, THEN conjunct2, THEN mp, OF b]
  from T obtain stmts p' where e: "Is (cur p') item_EOF"
    and all: "\<forall>n. length ?toks + 2 \<le> n \<longrightarrow>
         spec_main_loop sample_stdlib n (newParser ?toks) stmts p'
         \<and> (\<forall>ss q. spec_main_loop sample_stdlib n (newParser ?toks) ss q \<longrightarrow> ss = stmts \<and> q = p')
         \<and> Parse sample_stdlib n ?toks = Some (ast_Block stmts, errs p')"
    by (elim exE conjE) (rule that)
  from all [rule_format, OF l7] have s7: "spec_main_loop sample_stdlib 7 (newParser ?toks) stmts p'"
    and p7: "Parse sample_stdlib 7 ?toks = Some (ast_Block stmts, errs p')"
    by (rule conjunct1, rule conjunct2 [THEN conjunct2])
  from all [rule_format, OF l1000] have p1000: "Parse sample_stdlib 1000 ?toks = Some (ast_Block stmts, errs p')"
    by (rule conjunct2 [THEN conjunct2])
  from a p7 have eq: "stmts = [ast_NewIdentifier ''a'', ast_NewReturn (Some (ast_NewIdentifier ''b''))]"
    and er: "errs p' = []"
    by simp_all
  have c: "\<exists>p'. Is (cur p') item_EOF \<and> spec_main_loop sample_stdlib 7 (newParser ?toks)
        [ast_NewIdentifier ''a'', ast_NewReturn (Some (ast_NewIdentifier ''b''))] p'"
    using e s7 unfolding eq by (intro exI conjI)
  have d: "Parse sample_stdlib 1 [tok item_EOF] = Some (ast_Block [], [])"
    unfolding 1 by (rule U)
  show ?thesis
    by (intro conjI) (rule a, rule p1000 [unfolded eq er], rule c, rule d)
qed

end
